theory Spec2Isabelle
  imports Main "HOL-Library.Word"
begin

section \<open>Data model\<close>

text \<open>
  The constant-folding transformer of onnxruntime
  (\<^verbatim>\<open>core/optimizer/constant_folding.{h,cc}\<close>) walks the nodes of a graph in
  topological order, evaluates every node whose inputs are constant initializers
  and replaces it by initializers named after its outputs.

  The graph is mutated in place and \<^verbatim>\<open>ORT_ENFORCE\<close> throws, so the model passes the
  state explicitly and an error carries the state that is left behind at the
  moment it is raised.
\<close>

type_synonym byte = "8 word"
type_synonym NodeIndex = nat

text \<open>A \<^verbatim>\<open>NodeArg\<close>: the name of an edge and the element type that its
  \<^verbatim>\<open>TypeAsProto()->tensor_type().elem_type()\<close> declares.\<close>

record NodeArg =
  Name :: string
  elem_type :: int

text \<open>A computed \<^verbatim>\<open>Tensor\<close>: the dimensions of its shape (\<^verbatim>\<open>int64_t\<close>), its own
  element type with the size in bytes of one element (\<^verbatim>\<open>DataType()->Size()\<close>), and
  its buffer.\<close>

record MLDataType =
  type_id :: int
  Size :: nat

record Tensor =
  GetDims :: "int list"
  DataType :: MLDataType
  DataRaw :: "byte list"

datatype OrtValue = TensorValue Tensor | NonTensorValue

fun IsTensor :: "OrtValue \<Rightarrow> bool" where
  "IsTensor (TensorValue t) = True"
| "IsTensor NonTensorValue = False"

record TensorProto =
  name :: string
  dims :: "int list"
  data_type :: int
  raw_data :: "byte list"

text \<open>
  A node owns its nested subgraphs. The nodes of a graph live in a sparse arena
  indexed by \<^verbatim>\<open>NodeIndex\<close>; the index of a node is its slot, so
  \<^verbatim>\<open>node->Index()\<close> is the index the node was looked up with. An edge is
  (source node, destination node, name of the value).
\<close>

datatype Node = Node
    (OpType: string)
    (GetExecutionProviderType: string)
    (InputDefs: "NodeArg list")
    (OutputDefs: "NodeArg list")
    (subgraphs: "Graph list")
and Graph = Graph
    (nodes: "Node option list")
    (initializers: "string \<rightharpoonup> TensorProto")
    (edges: "(NodeIndex \<times> NodeIndex \<times> string) list")
    (graph_inputs: "string list")
    (graph_outputs: "string list")

datatype Status = OK | FAIL

text \<open>The two \<^verbatim>\<open>ORT_ENFORCE\<close> checks that can throw.\<close>

datatype error =
    Enforce_fetches_size
  | Enforce_IsTensor

text \<open>Left: the error raised together with the state at that moment.\<close>

type_synonym 'a outcome = "(error \<times> 'a) + 'a"

text \<open>The transformer object: the constructor takes the compatible execution
  providers and \<^verbatim>\<open>excluded_initializers\<close>; \<^verbatim>\<open>excluded_op_types_\<close> is a member
  with a default initializer that no constructor argument reaches.\<close>

record ConstantFolding =
  compatible_execution_providers :: "string set"
  excluded_op_types :: "string set"
  excluded_initializers :: "string set"

definition ConstantFolding_new :: "string set \<Rightarrow> string set \<Rightarrow> ConstantFolding" where
  "ConstantFolding_new compatible_providers excluded_inits =
     \<lparr> compatible_execution_providers = compatible_providers,
       excluded_op_types =
         {''RandomUniform'', ''RandomNormal'', ''RandomUniformLike'',
          ''RandomNormalLike'', ''Multinomial''},
       excluded_initializers = excluded_inits \<rparr>"

text \<open>The collaborators that are outside the pass: the topological order that
  \<^verbatim>\<open>GraphViewer\<close> computes, and the execution frame with the kernel of a node, which
  from the node and all initializers of the graph yields the status of
  \<^verbatim>\<open>Compute\<close> and the values that \<^verbatim>\<open>frame.GetOutputs\<close> fetches.\<close>

record Externals =
  GetNodesInTopologicalOrder :: "Graph \<Rightarrow> NodeIndex list"
  Compute :: "Node \<Rightarrow> (string \<rightharpoonup> TensorProto) \<Rightarrow> Status \<times> OrtValue list"

section \<open>The graph interface\<close>

text \<open>Modelled from the spec: node lookup by index in a sparse arena of optional
  node records; a miss is an empty result (\<^verbatim>\<open>Graph::GetNode\<close> is not in the
  sources).\<close>

definition GetNode :: "Graph \<Rightarrow> NodeIndex \<Rightarrow> Node option" where
  "GetNode graph i = (if i < length (nodes graph) then nodes graph ! i else None)"

text \<open>The node at slot \<open>i\<close> is mutated in place when the pass descends into its
  subgraphs; the model writes the node back.\<close>

definition SetNode :: "Graph \<Rightarrow> NodeIndex \<Rightarrow> Node \<Rightarrow> Graph" where
  "SetNode graph i node =
     Graph ((nodes graph)[i := Some node]) (initializers graph) (edges graph)
       (graph_inputs graph) (graph_outputs graph)"

text \<open>Modelled from the spec: the node is removed from the node set of the graph
  (\<^verbatim>\<open>Graph::RemoveNode\<close> is not in the sources).\<close>

definition RemoveNode :: "Graph \<Rightarrow> NodeIndex \<Rightarrow> Graph" where
  "RemoveNode graph i =
     Graph ((nodes graph)[i := None]) (initializers graph) (edges graph)
       (graph_inputs graph) (graph_outputs graph)"

text \<open>Modelled from the spec: all outgoing edges of the node are severed
  (\<^verbatim>\<open>graph_utils::RemoveNodeOutputEdges\<close> is not in the sources).\<close>

definition RemoveNodeOutputEdges :: "Graph \<Rightarrow> NodeIndex \<Rightarrow> Graph" where
  "RemoveNodeOutputEdges graph i =
     Graph (nodes graph) (initializers graph)
       (filter (\<lambda>e. fst e \<noteq> i) (edges graph))
       (graph_inputs graph) (graph_outputs graph)"

text \<open>Modelled from the spec: the initializer is inserted into the initializer set
  of the graph under its name, overwriting on a name collision
  (\<^verbatim>\<open>Graph::AddInitializedTensor\<close> is not in the sources).\<close>

definition AddInitializedTensor :: "Graph \<Rightarrow> TensorProto \<Rightarrow> Graph" where
  "AddInitializedTensor graph tensor =
     Graph (nodes graph) ((initializers graph)(name tensor \<mapsto> tensor)) (edges graph)
       (graph_inputs graph) (graph_outputs graph)"

definition GetAllInitializedTensors :: "Graph \<Rightarrow> (string \<rightharpoonup> TensorProto)" where
  "GetAllInitializedTensors graph = initializers graph"

text \<open>Modelled from the spec: the node is supported when its execution target is in
  the caller-supplied allow-list (\<^verbatim>\<open>graph_utils::IsSupportedProvider\<close> is not in the
  sources).\<close>

definition IsSupportedProvider :: "Node \<Rightarrow> string set \<Rightarrow> bool" where
  "IsSupportedProvider node compatible_providers \<longleftrightarrow>
     GetExecutionProviderType node \<in> compatible_providers"

definition ContainsSubgraph :: "Node \<Rightarrow> bool" where
  "ContainsSubgraph node \<longleftrightarrow> subgraphs node \<noteq> []"

text \<open>Modelled from the spec: some output edge of the node is also a graph-level
  output (\<^verbatim>\<open>Graph::IsNodeOutputsInGraphOutputs\<close> is not in the sources).\<close>

definition IsNodeOutputsInGraphOutputs :: "Graph \<Rightarrow> Node \<Rightarrow> bool" where
  "IsNodeOutputsInGraphOutputs graph node \<longleftrightarrow>
     (\<exists>node_out \<in> set (OutputDefs node). Name node_out \<in> set (graph_outputs graph))"

text \<open>Modelled from the spec: every input resolves to a constant initializer; no
  input is a graph input or arrives over an edge from another node that is still in
  the graph (\<^verbatim>\<open>graph_utils::AllNodeInputsAreConstant\<close> is not in the sources).\<close>

definition AllNodeInputsAreConstant :: "Graph \<Rightarrow> NodeIndex \<Rightarrow> Node \<Rightarrow> bool" where
  "AllNodeInputsAreConstant graph i node \<longleftrightarrow>
     (\<forall>e \<in> set (edges graph). fst (snd e) \<noteq> i) \<and>
     (\<forall>input_def \<in> set (InputDefs node).
        initializers graph (Name input_def) \<noteq> None \<and>
        Name input_def \<notin> set (graph_inputs graph))"

section \<open>The constant materializer\<close>

text \<open>Modelled from the spec: the number of elements of a shape is the product of
  its dimensions (\<^verbatim>\<open>TensorShape::Size\<close> is not in the sources).\<close>

definition Shape_Size :: "Tensor \<Rightarrow> int" where
  "Shape_Size out_tensor = prod_list (GetDims out_tensor)"

text \<open>\<^verbatim>\<open>data_size\<close> is the product of a \<^verbatim>\<open>size_t\<close> and an \<^verbatim>\<open>int64_t\<close>, computed in
  \<^verbatim>\<open>size_t\<close>: it wraps at \<open>2 ^ 64\<close>.\<close>

definition data_size :: "Tensor \<Rightarrow> nat" where
  "data_size out_tensor =
     nat ((int (Size (DataType out_tensor)) * Shape_Size out_tensor) mod 2 ^ 64)"

text \<open>\<^verbatim>\<open>set_raw_data(ptr, n)\<close> copies \<open>n\<close> bytes from the buffer. The buffer of a
  tensor holds all its elements (see \<open>tensor_wf\<close>); the model copies what is there.\<close>

definition BuildTensorProtoForInitializer :: "OrtValue \<Rightarrow> NodeArg \<Rightarrow> error + TensorProto" where
  "BuildTensorProtoForInitializer ort_value constant_node_arg =
     (case ort_value of
        NonTensorValue \<Rightarrow> Inl Enforce_IsTensor
      | TensorValue out_tensor \<Rightarrow>
          Inr \<lparr> name = Name constant_node_arg,
                dims = GetDims out_tensor,
                data_type = elem_type constant_node_arg,
                raw_data = take (data_size out_tensor) (DataRaw out_tensor) \<rparr>)"

text \<open>The invariant of a computed tensor: no negative dimension, and a buffer that
  holds \<open>element size \<times> number of elements\<close> addressable bytes.\<close>

definition tensor_wf :: "Tensor \<Rightarrow> bool" where
  "tensor_wf t \<longleftrightarrow>
     list_all (\<lambda>d. 0 \<le> d) (GetDims t) \<and>
     Size (DataType t) * nat (prod_list (GetDims t)) \<le> length (DataRaw t) \<and>
     length (DataRaw t) < 2 ^ 64"

section \<open>The pass\<close>

text \<open>Lines 27 to 35 of \<^verbatim>\<open>ApplyImpl\<close>: the node is skipped when any of the five
  tests of the condition holds.\<close>

definition eligible :: "ConstantFolding \<Rightarrow> Graph \<Rightarrow> NodeIndex \<Rightarrow> Node \<Rightarrow> bool" where
  "eligible cf graph i node \<longleftrightarrow>
     \<not> (\<not> IsSupportedProvider node (compatible_execution_providers cf) \<or>
        OpType node \<in> excluded_op_types cf \<or>
        ContainsSubgraph node \<or>
        IsNodeOutputsInGraphOutputs graph node \<or>
        \<not> AllNodeInputsAreConstant graph i node)"

text \<open>The loop of lines 62 to 71 over the fetches and the output definitions at the
  same position: build the initializer, then add it to the graph, one output after
  the other.\<close>

fun add_fetches :: "Graph \<Rightarrow> (OrtValue \<times> NodeArg) list \<Rightarrow> Graph outcome" where
  "add_fetches graph [] = Inr graph"
| "add_fetches graph ((ort_value, constant_arg_out) # rest) =
     (case BuildTensorProtoForInitializer ort_value constant_arg_out of
        Inl e \<Rightarrow> Inl (e, graph)
      | Inr out_tensorproto \<Rightarrow>
          add_fetches (AddInitializedTensor graph out_tensorproto) rest)"

text \<open>Lines 39 to 80: run the kernel (its status is dropped), fetch the outputs,
  check their number, add the initializers, remove the output edges and the node.\<close>

definition fold_node :: "Externals \<Rightarrow> Graph \<Rightarrow> NodeIndex \<Rightarrow> Node \<Rightarrow> bool \<Rightarrow> (Graph \<times> bool) outcome" where
  "fold_node ex graph i node modified =
     (let fetches = snd (Compute ex node (GetAllInitializedTensors graph)) in
      if length fetches \<noteq> length (OutputDefs node)
      then Inl (Enforce_fetches_size, graph, modified)
      else (case add_fetches graph (zip fetches (OutputDefs node)) of
              Inl (e, graph') \<Rightarrow> Inl (e, graph', modified)
            | Inr graph' \<Rightarrow> Inr (RemoveNode (RemoveNodeOutputEdges graph' i) i, True)))"

text \<open>Lines 26 to 80 for one node: skip (\<^verbatim>\<open>continue\<close>) or fold.\<close>

definition visit_node ::
    "ConstantFolding \<Rightarrow> Externals \<Rightarrow> Graph \<Rightarrow> NodeIndex \<Rightarrow> Node \<Rightarrow> bool \<Rightarrow> (Graph \<times> bool) outcome" where
  "visit_node cf ex graph i node modified =
     (if \<not> eligible cf graph i node then Inr (graph, modified)
      else fold_node ex graph i node modified)"

text \<open>Modelled from the spec: \<^verbatim>\<open>GraphTransformer::Recurse\<close> (not in the sources)
  applies the pass to every nested subgraph that the node owns, one level deeper, and
  stops at the first failure. \<open>apply_impl\<close> is the pass itself; \<open>None\<close> is the
  recursion running out of fuel.\<close>

fun Recurse_subgraphs ::
    "(Graph \<Rightarrow> bool \<Rightarrow> int \<Rightarrow> (Graph \<times> bool) outcome option) \<Rightarrow>
     Graph list \<Rightarrow> bool \<Rightarrow> int \<Rightarrow> (Graph list \<times> bool) outcome option" where
  "Recurse_subgraphs apply_impl [] modified subgraph_level = Some (Inr ([], modified))"
| "Recurse_subgraphs apply_impl (subgraph # rest) modified subgraph_level =
     (case apply_impl subgraph modified subgraph_level of
        None \<Rightarrow> None
      | Some (Inl (e, subgraph', modified')) \<Rightarrow> Some (Inl (e, subgraph' # rest, modified'))
      | Some (Inr (subgraph', modified')) \<Rightarrow>
          (case Recurse_subgraphs apply_impl rest modified' subgraph_level of
             None \<Rightarrow> None
           | Some (Inl (e, rest', modified'')) \<Rightarrow> Some (Inl (e, subgraph' # rest', modified''))
           | Some (Inr (rest', modified'')) \<Rightarrow> Some (Inr (subgraph' # rest', modified''))))"

definition with_subgraphs :: "Node \<Rightarrow> Graph list \<Rightarrow> Node" where
  "with_subgraphs node gs =
     Node (OpType node) (GetExecutionProviderType node) (InputDefs node) (OutputDefs node) gs"

definition Recurse ::
    "(Graph \<Rightarrow> bool \<Rightarrow> int \<Rightarrow> (Graph \<times> bool) outcome option) \<Rightarrow>
     Node \<Rightarrow> bool \<Rightarrow> int \<Rightarrow> (Node \<times> bool) outcome option" where
  "Recurse apply_impl node modified graph_level =
     (case Recurse_subgraphs apply_impl (subgraphs node) modified (graph_level + 1) of
        None \<Rightarrow> None
      | Some (Inl (e, gs, modified')) \<Rightarrow> Some (Inl (e, with_subgraphs node gs, modified'))
      | Some (Inr (gs, modified')) \<Rightarrow> Some (Inr (with_subgraphs node gs, modified')))"

text \<open>The loop of lines 18 to 81 over the snapshot \<open>order\<close>: look the node up in the
  live graph, descend into its subgraphs, then check and fold.\<close>

fun ApplyImpl_loop ::
    "(Graph \<Rightarrow> bool \<Rightarrow> int \<Rightarrow> (Graph \<times> bool) outcome option) \<Rightarrow>
     ConstantFolding \<Rightarrow> Externals \<Rightarrow> NodeIndex list \<Rightarrow> Graph \<Rightarrow> bool \<Rightarrow> int \<Rightarrow>
     (Graph \<times> bool) outcome option" where
  "ApplyImpl_loop apply_impl cf ex [] graph modified graph_level = Some (Inr (graph, modified))"
| "ApplyImpl_loop apply_impl cf ex (i # order) graph modified graph_level =
     (case GetNode graph i of
        None \<Rightarrow> ApplyImpl_loop apply_impl cf ex order graph modified graph_level
      | Some node \<Rightarrow>
          (case Recurse apply_impl node modified graph_level of
             None \<Rightarrow> None
           | Some (Inl (e, node', modified')) \<Rightarrow> Some (Inl (e, SetNode graph i node', modified'))
           | Some (Inr (node', modified')) \<Rightarrow>
               (case visit_node cf ex (SetNode graph i node') i node' modified' of
                  Inl err \<Rightarrow> Some (Inl err)
                | Inr (graph', modified'') \<Rightarrow>
                    ApplyImpl_loop apply_impl cf ex order graph' modified'' graph_level)))"

text \<open>\<^verbatim>\<open>ApplyImpl\<close> calls itself through \<^verbatim>\<open>Recurse\<close> on the subgraphs of the nodes of
  the live graph; the fuel bounds the nesting depth of these calls.\<close>

primrec ApplyImpl_fuel ::
    "nat \<Rightarrow> ConstantFolding \<Rightarrow> Externals \<Rightarrow> Graph \<Rightarrow> bool \<Rightarrow> int \<Rightarrow> (Graph \<times> bool) outcome option" where
  "ApplyImpl_fuel 0 cf ex graph modified graph_level = None"
| "ApplyImpl_fuel (Suc k) cf ex graph modified graph_level =
     ApplyImpl_loop (ApplyImpl_fuel k cf ex) cf ex
       (GetNodesInTopologicalOrder ex graph) graph modified graph_level"

text \<open>The nesting depth of a graph: one more than the deepest subgraph of its
  nodes.\<close>

fun node_depth :: "Node \<Rightarrow> nat" and graph_depth :: "Graph \<Rightarrow> nat" where
  "node_depth (Node ot ep ins outs gs) = fold max (map graph_depth gs) 0"
| "graph_depth (Graph ns inits es gi go) =
     Suc (fold max (map (\<lambda>n. case n of None \<Rightarrow> 0 | Some node \<Rightarrow> node_depth node) ns) 0)"

definition ApplyImpl ::
    "ConstantFolding \<Rightarrow> Externals \<Rightarrow> Graph \<Rightarrow> bool \<Rightarrow> int \<Rightarrow> (Graph \<times> bool) outcome option" where
  "ApplyImpl cf ex graph modified graph_level =
     ApplyImpl_fuel (graph_depth graph) cf ex graph modified graph_level"

section \<open>Graph invariants\<close>

text \<open>The state that an outcome leaves behind, raised or not, and its graph.\<close>

definition outcome_value :: "'a outcome \<Rightarrow> 'a" where
  "outcome_value r = (case r of Inl (e, x) \<Rightarrow> x | Inr x \<Rightarrow> x)"

definition outcome_graph :: "(Graph \<times> bool) outcome \<Rightarrow> Graph" where
  "outcome_graph r = fst (outcome_value r)"

text \<open>Along \<open>order\<close>, the source of every edge is listed before its destination
  (\<open>seen\<close> are the indices already passed).\<close>

fun sources_first ::
    "(NodeIndex \<times> NodeIndex \<times> string) list \<Rightarrow> NodeIndex list \<Rightarrow> NodeIndex list \<Rightarrow> bool" where
  "sources_first es seen [] = True"
| "sources_first es seen (d # order) =
     ((\<forall>e \<in> set es. fst (snd e) = d \<longrightarrow> fst e \<in> set seen) \<and>
      sources_first es (d # seen) order)"

text \<open>What \<^verbatim>\<open>GetNodesInTopologicalOrder\<close> promises: every node of the graph is listed,
  once, after the nodes its input edges come from.\<close>

definition topological_order :: "Graph \<Rightarrow> NodeIndex list \<Rightarrow> bool" where
  "topological_order graph order \<longleftrightarrow>
     distinct order \<and>
     (\<forall>i < length (nodes graph). nodes graph ! i \<noteq> None \<longrightarrow> i \<in> set order) \<and>
     sources_first (edges graph) [] order"

text \<open>An input that is produced by a node of the graph arrives over an edge from that
  node.\<close>

definition edges_complete :: "Graph \<Rightarrow> bool" where
  "edges_complete graph \<longleftrightarrow>
     (\<forall>i < length (nodes graph). \<forall>j < length (nodes graph).
        \<forall>producer consumer. nodes graph ! i = Some producer \<longrightarrow> nodes graph ! j = Some consumer \<longrightarrow>
          Name ` set (OutputDefs producer) \<inter> Name ` set (InputDefs consumer) \<noteq> {} \<longrightarrow>
          (\<exists>e \<in> set (edges graph). fst e = i \<and> fst (snd e) = j))"

text \<open>A resolved graph: the two invariants hold in the graph and in every subgraph
  nested in it. \<open>topo\<close> is the order the graph viewer computes.\<close>

fun node_wf :: "(Graph \<Rightarrow> NodeIndex list) \<Rightarrow> Node \<Rightarrow> bool"
  and graph_wf :: "(Graph \<Rightarrow> NodeIndex list) \<Rightarrow> Graph \<Rightarrow> bool" where
  "node_wf topo (Node ot ep ins outs gs) = (\<forall>subgraph \<in> set gs. graph_wf topo subgraph)"
| "graph_wf topo (Graph ns inits es gi go) =
     (topological_order (Graph ns inits es gi go) (topo (Graph ns inits es gi go)) \<and>
      edges_complete (Graph ns inits es gi go) \<and>
      (\<forall>n \<in> set ns. case n of None \<Rightarrow> True | Some node \<Rightarrow> node_wf topo node))"

text \<open>Nothing is left to fold: no node of the graph, nor of any subgraph nested in it,
  passes the eligibility check.\<close>

fun node_quiescent :: "ConstantFolding \<Rightarrow> Node \<Rightarrow> bool"
  and graph_quiescent :: "ConstantFolding \<Rightarrow> Graph \<Rightarrow> bool" where
  "node_quiescent cf (Node ot ep ins outs gs) = (\<forall>subgraph \<in> set gs. graph_quiescent cf subgraph)"
| "graph_quiescent cf (Graph ns inits es gi go) =
     ((\<forall>i < length ns. \<forall>node. ns ! i = Some node \<longrightarrow>
         \<not> eligible cf (Graph ns inits es gi go) i node) \<and>
      (\<forall>n \<in> set ns. case n of None \<Rightarrow> True | Some node \<Rightarrow> node_quiescent cf node))"

text \<open>While the loop runs: a node that was visited and is still in the graph stays
  ineligible, for a reason that no later round of the loop takes away. \<open>seen\<close> are the
  indices visited so far, \<open>rest\<close> those still to come.\<close>

definition settled ::
    "ConstantFolding \<Rightarrow> Graph \<Rightarrow> NodeIndex list \<Rightarrow> NodeIndex list \<Rightarrow> NodeIndex \<Rightarrow> Node \<Rightarrow> bool" where
  "settled cf g seen rest i n \<longleftrightarrow>
     node_quiescent cf n \<and>
     (\<not> IsSupportedProvider n (compatible_execution_providers cf)
      \<or> OpType n \<in> excluded_op_types cf
      \<or> ContainsSubgraph n
      \<or> IsNodeOutputsInGraphOutputs g n
      \<or> (\<exists>e \<in> set (edges g). fst (snd e) = i \<and> fst e \<in> set seen)
      \<or> (\<exists>input_def \<in> set (InputDefs n). Name input_def \<in> set (graph_inputs g))
      \<or> (\<exists>input_def \<in> set (InputDefs n). initializers g (Name input_def) = None \<and>
            (\<forall>k \<in> set rest. \<forall>nk. GetNode g k = Some nk \<longrightarrow>
               Name input_def \<notin> Name ` set (OutputDefs nk))))"

definition loop_inv ::
    "ConstantFolding \<Rightarrow> (Graph \<Rightarrow> NodeIndex list) \<Rightarrow> NodeIndex list \<Rightarrow> NodeIndex list \<Rightarrow> Graph \<Rightarrow> bool" where
  "loop_inv cf topo seen rest g \<longleftrightarrow>
     distinct (seen @ rest) \<and>
     (\<forall>i n. GetNode g i = Some n \<longrightarrow> i \<in> set seen \<union> set rest) \<and>
     sources_first (edges g) seen rest \<and>
     edges_complete g \<and>
     (\<forall>i \<in> set rest. \<forall>n. GetNode g i = Some n \<longrightarrow> node_wf topo n) \<and>
     (\<forall>i \<in> set seen. \<forall>n. GetNode g i = Some n \<longrightarrow> settled cf g seen rest i n)"

text \<open>With fuel up to \<open>k\<close> the pass returns, and leaves a graph no deeper than the one it
  was given.\<close>

definition returns_within ::
    "nat \<Rightarrow> (Graph \<Rightarrow> bool \<Rightarrow> int \<Rightarrow> (Graph \<times> bool) outcome option) \<Rightarrow> bool" where
  "returns_within k ap \<longleftrightarrow>
     (\<forall>sg m l d. graph_depth sg \<le> d \<and> d \<le> k \<longrightarrow>
        (\<exists>r. ap sg m l = Some r \<and> graph_depth (outcome_graph r) \<le> d))"

section \<open>Example graphs and kernels\<close>

definition cpu :: string where "cpu = ''CPUExecutionProvider''"

definition arg :: "string \<Rightarrow> NodeArg" where
  "arg x = \<lparr> Name = x, elem_type = 1 \<rparr>"

definition scalar :: "byte list \<Rightarrow> Tensor" where
  "scalar bs = \<lparr> GetDims = [], DataType = \<lparr> type_id = 1, Size = 4 \<rparr>, DataRaw = bs \<rparr>"

definition const_proto :: "string \<Rightarrow> byte list \<Rightarrow> TensorProto" where
  "const_proto x bs = \<lparr> name = x, dims = [], data_type = 1, raw_data = bs \<rparr>"

definition ex_kernels :: Externals where
  "ex_kernels =
     \<lparr> GetNodesInTopologicalOrder = (\<lambda>g. [0 ..< length (nodes g)]),
       Compute = (\<lambda>node inits.
         if OpType node = ''Add'' then (OK, [TensorValue (scalar [0, 0, 160, 64])])
         else if OpType node = ''Dropout''
           then (OK, [TensorValue (scalar [0, 0, 0, 64]), NonTensorValue])
         else if OpType node = ''ZipMap'' then (OK, [NonTensorValue])
         else if OpType node = ''Neg'' then (FAIL, [TensorValue (scalar [0, 0, 0, 192])])
         else if OpType node = ''RandomUniform''
           then (OK, [TensorValue (scalar [0, 0, 0, 63])])
         else (OK, [])) \<rparr>"

definition two_consts :: "string \<rightharpoonup> TensorProto" where
  "two_consts =
     [''a'' \<mapsto> const_proto ''a'' [0, 0, 0, 64], ''b'' \<mapsto> const_proto ''b'' [0, 0, 64, 64]]"

definition add_node :: Node where
  "add_node = Node ''Add'' cpu [arg ''a'', arg ''b''] [arg ''sum''] []"

definition relu_node :: "string \<Rightarrow> Node" where
  "relu_node x = Node ''Relu'' cpu [arg x] [arg ''out''] []"

definition add_relu_graph :: Graph where
  "add_relu_graph =
     Graph [Some add_node, Some (relu_node ''sum'')] two_consts [(0, 1, ''sum'')] [] [''out'']"

definition unary_graph :: "string \<Rightarrow> Graph" where
  "unary_graph op_type =
     Graph [Some (Node op_type cpu [arg ''a''] [arg ''y''] []), Some (relu_node ''y'')]
       two_consts [(0, 1, ''y'')] [] [''out'']"

definition dropout_node :: Node where
  "dropout_node = Node ''Dropout'' cpu [arg ''a''] [arg ''y'', arg ''mask''] []"

definition dropout_graph :: Graph where
  "dropout_graph =
     Graph [Some dropout_node, Some (relu_node ''y'')] two_consts [(0, 1, ''y'')] [] [''out'']"

definition if_node :: "string \<Rightarrow> Graph \<Rightarrow> Node" where
  "if_node op_type body = Node op_type cpu [arg ''a''] [arg ''r''] [body]"

definition nested_graph :: "string \<Rightarrow> Graph \<Rightarrow> Graph" where
  "nested_graph op_type body =
     Graph [Some (if_node op_type body), Some add_node, Some (relu_node ''sum'')]
       two_consts [(1, 2, ''sum'')] [] [''r'', ''out'']"


section \<open>Basic facts about the graph interface and the fold\<close>

lemmas fixture_defs = cpu_def arg_def scalar_def const_proto_def ex_kernels_def two_consts_def
  add_node_def relu_node_def add_relu_graph_def unary_graph_def dropout_node_def
  dropout_graph_def if_node_def nested_graph_def

lemmas model_defs = ApplyImpl_def ConstantFolding_new_def GetNode_def SetNode_def RemoveNode_def
  RemoveNodeOutputEdges_def AddInitializedTensor_def GetAllInitializedTensors_def
  IsSupportedProvider_def ContainsSubgraph_def IsNodeOutputsInGraphOutputs_def
  AllNodeInputsAreConstant_def eligible_def fold_node_def visit_node_def Recurse_def
  with_subgraphs_def BuildTensorProtoForInitializer_def data_size_def Shape_Size_def

lemma sel_SetNode [simp]:
  "nodes (SetNode g i n) = (nodes g)[i := Some n]"
  "initializers (SetNode g i n) = initializers g"
  "edges (SetNode g i n) = edges g"
  "graph_inputs (SetNode g i n) = graph_inputs g"
  "graph_outputs (SetNode g i n) = graph_outputs g"
  by (simp_all add: SetNode_def)

lemma sel_RemoveNode [simp]:
  "nodes (RemoveNode g i) = (nodes g)[i := None]"
  "initializers (RemoveNode g i) = initializers g"
  "edges (RemoveNode g i) = edges g"
  "graph_inputs (RemoveNode g i) = graph_inputs g"
  "graph_outputs (RemoveNode g i) = graph_outputs g"
  by (simp_all add: RemoveNode_def)

lemma sel_RemoveNodeOutputEdges [simp]:
  "nodes (RemoveNodeOutputEdges g i) = nodes g"
  "initializers (RemoveNodeOutputEdges g i) = initializers g"
  "edges (RemoveNodeOutputEdges g i) = filter (\<lambda>e. fst e \<noteq> i) (edges g)"
  "graph_inputs (RemoveNodeOutputEdges g i) = graph_inputs g"
  "graph_outputs (RemoveNodeOutputEdges g i) = graph_outputs g"
  by (simp_all add: RemoveNodeOutputEdges_def)

lemma sel_AddInitializedTensor [simp]:
  "nodes (AddInitializedTensor g tp) = nodes g"
  "initializers (AddInitializedTensor g tp) = (initializers g)(name tp \<mapsto> tp)"
  "edges (AddInitializedTensor g tp) = edges g"
  "graph_inputs (AddInitializedTensor g tp) = graph_inputs g"
  "graph_outputs (AddInitializedTensor g tp) = graph_outputs g"
  by (simp_all add: AddInitializedTensor_def)

lemma sel_with_subgraphs [simp]:
  "OpType (with_subgraphs n gs) = OpType n"
  "GetExecutionProviderType (with_subgraphs n gs) = GetExecutionProviderType n"
  "InputDefs (with_subgraphs n gs) = InputDefs n"
  "OutputDefs (with_subgraphs n gs) = OutputDefs n"
  "subgraphs (with_subgraphs n gs) = gs"
  by (simp_all add: with_subgraphs_def)

lemma with_subgraphs_same [simp]: "with_subgraphs n (subgraphs n) = n"
  by (cases n) (simp add: with_subgraphs_def)

lemma GetNode_SetNode:
  "GetNode (SetNode g i n) j = (if j = i then (if i < length (nodes g) then Some n else None) else GetNode g j)"
  by (simp add: GetNode_def)

lemma GetNode_RemoveNode:
  "GetNode (RemoveNode g i) j = (if j = i then None else GetNode g j)"
  by (simp add: GetNode_def)

lemma GetNode_RemoveNodeOutputEdges [simp]:
  "GetNode (RemoveNodeOutputEdges g i) j = GetNode g j"
  by (simp add: GetNode_def)

lemma GetNode_AddInitializedTensor [simp]:
  "GetNode (AddInitializedTensor g tp) j = GetNode g j"
  by (simp add: GetNode_def)

lemma SetNode_same:
  assumes "GetNode g i = Some n"
  shows "SetNode g i n = g"
proof -
  from assms have "i < length (nodes g)" and "nodes g ! i = Some n"
    by (auto simp: GetNode_def split: if_splits)
  then have "(nodes g)[i := Some n] = nodes g"
    by (metis list_update_id)
  then show ?thesis
    by (cases g) (simp add: SetNode_def)
qed

lemma Recurse_no_subgraphs:
  "subgraphs n = [] \<Longrightarrow> Recurse ap n m l = Some (Inr (n, m))"
  using with_subgraphs_same [of n] by (simp add: Recurse_def)

lemma eligible_no_subgraphs: "eligible cf g i n \<Longrightarrow> subgraphs n = []"
  by (simp add: eligible_def ContainsSubgraph_def)

text \<open>The loop that adds the fetches changes the initializers only.\<close>

lemma add_fetches_frame:
  assumes "add_fetches g ps = Inr g' \<or> add_fetches g ps = Inl (e, g')"
  shows "nodes g' = nodes g \<and> edges g' = edges g \<and> graph_inputs g' = graph_inputs g
    \<and> graph_outputs g' = graph_outputs g"
  using assms
  by (induction g ps rule: add_fetches.induct) (auto split: sum.splits)

lemma add_fetches_tensors:
  assumes "list_all IsTensor (map fst ps)"
  shows "\<exists>g'. add_fetches g ps = Inr g'
     \<and> (\<forall>x. x \<notin> Name ` snd ` set ps \<longrightarrow> initializers g' x = initializers g x)
     \<and> (\<forall>x \<in> Name ` snd ` set ps. initializers g' x \<noteq> None)"
  using assms
proof (induction g ps rule: add_fetches.induct)
  case (1 graph)
  then show ?case by simp
next
  case (2 graph ort_value constant_arg_out rest)
  from "2.prems" obtain t where t: "ort_value = TensorValue t"
    by (cases ort_value) auto
  let ?tp = "\<lparr> name = Name constant_arg_out, dims = GetDims t,
      data_type = elem_type constant_arg_out, raw_data = take (data_size t) (DataRaw t) \<rparr>"
  have b: "BuildTensorProtoForInitializer ort_value constant_arg_out = Inr ?tp"
    by (simp add: t BuildTensorProtoForInitializer_def)
  from "2.prems" have "list_all IsTensor (map fst rest)" by simp
  from "2.IH" [OF b this] obtain g' where
    g': "add_fetches (AddInitializedTensor graph ?tp) rest = Inr g'"
    and out: "\<forall>x. x \<notin> Name ` snd ` set rest \<longrightarrow>
         initializers g' x = initializers (AddInitializedTensor graph ?tp) x"
    and inn: "\<forall>x \<in> Name ` snd ` set rest. initializers g' x \<noteq> None"
    by blast
  have "add_fetches graph ((ort_value, constant_arg_out) # rest) = Inr g'"
    using b g' by simp
  moreover have "\<forall>x. x \<notin> Name ` snd ` set ((ort_value, constant_arg_out) # rest) \<longrightarrow>
      initializers g' x = initializers graph x"
    using out by auto
  moreover have "\<forall>x \<in> Name ` snd ` set ((ort_value, constant_arg_out) # rest).
      initializers g' x \<noteq> None"
    using out inn by (cases "Name constant_arg_out \<in> Name ` snd ` set rest") auto
  ultimately show ?case by blast
qed



lemma add_fetches_append:
  "add_fetches g (xs @ ys) =
     (case add_fetches g xs of Inl err \<Rightarrow> Inl err | Inr g1 \<Rightarrow> add_fetches g1 ys)"
  by (induction g xs rule: add_fetches.induct) (auto split: sum.splits)

lemma add_fetches_not_tensor:
  assumes "k < length ps" and "list_all IsTensor (map fst (take k ps))"
    and "\<not> IsTensor (fst (ps ! k))"
  shows "\<exists>g'. add_fetches g ps = Inl (Enforce_IsTensor, g')
     \<and> (\<forall>x. x \<notin> Name ` snd ` set (take k ps) \<longrightarrow> initializers g' x = initializers g x)
     \<and> (\<forall>x \<in> Name ` snd ` set (take k ps). initializers g' x \<noteq> None)"
proof -
  from add_fetches_tensors [OF assms(2), of g] obtain g1 where
    g1: "add_fetches g (take k ps) = Inr g1"
    and out: "\<forall>x. x \<notin> Name ` snd ` set (take k ps) \<longrightarrow> initializers g1 x = initializers g x"
    and inn: "\<forall>x \<in> Name ` snd ` set (take k ps). initializers g1 x \<noteq> None"
    by blast
  have split: "ps = take k ps @ (ps ! k) # drop (Suc k) ps"
    using assms(1) by (simp add: id_take_nth_drop)
  obtain v a where va: "ps ! k = (v, a)" by (cases "ps ! k")
  with assms(3) have "v = NonTensorValue" by (cases v) auto
  then have "add_fetches g1 ((ps ! k) # drop (Suc k) ps) = Inl (Enforce_IsTensor, g1)"
    by (simp add: va BuildTensorProtoForInitializer_def)
  then have "add_fetches g ps = Inl (Enforce_IsTensor, g1)"
    using g1 add_fetches_append [of g "take k ps" "(ps ! k) # drop (Suc k) ps"] split
    by simp
  with out inn show ?thesis by blast
qed

lemma add_fetches_error_kind:
  "add_fetches g ps = Inl (e, g') \<Longrightarrow> e = Enforce_IsTensor \<and> \<not> list_all IsTensor (map fst ps)"
proof (induction g ps rule: add_fetches.induct)
  case (1 graph)
  then show ?case by simp
next
  case (2 graph ort_value constant_arg_out rest)
  then show ?case
    by (cases ort_value) (auto simp: BuildTensorProtoForInitializer_def split: sum.splits)
qed

lemma zip_fst [simp]: "length xs = length ys \<Longrightarrow> map fst (zip xs ys) = xs"
  by (induction xs ys rule: list_induct2) auto

lemma zip_snd_set: "length xs = length ys \<Longrightarrow> snd ` set (zip xs ys) = set ys"
  by (induction xs ys rule: list_induct2) auto

lemma fold_node_size_mismatch:
  "length (snd (Compute ex node (GetAllInitializedTensors graph))) \<noteq> length (OutputDefs node)
   \<Longrightarrow> fold_node ex graph i node modified = Inl (Enforce_fetches_size, graph, modified)"
  by (simp add: fold_node_def Let_def)

lemma fold_node_success:
  assumes "snd (Compute ex node (GetAllInitializedTensors graph)) = fetches"
    and "length fetches = length (OutputDefs node)"
    and "list_all IsTensor fetches"
  shows "\<exists>g'. add_fetches graph (zip fetches (OutputDefs node)) = Inr g'
     \<and> fold_node ex graph i node modified = Inr (RemoveNode (RemoveNodeOutputEdges g' i) i, True)
     \<and> nodes g' = nodes graph \<and> edges g' = edges graph
     \<and> graph_inputs g' = graph_inputs graph \<and> graph_outputs g' = graph_outputs graph
     \<and> (\<forall>x. x \<notin> Name ` set (OutputDefs node) \<longrightarrow> initializers g' x = initializers graph x)
     \<and> (\<forall>x \<in> Name ` set (OutputDefs node). initializers g' x \<noteq> None)"
proof -
  let ?ps = "zip fetches (OutputDefs node)"
  have "list_all IsTensor (map fst ?ps)" using assms by simp
  from add_fetches_tensors [OF this, of graph] obtain g' where
    g': "add_fetches graph ?ps = Inr g'"
    and out: "\<forall>x. x \<notin> Name ` snd ` set ?ps \<longrightarrow> initializers g' x = initializers graph x"
    and inn: "\<forall>x \<in> Name ` snd ` set ?ps. initializers g' x \<noteq> None"
    by blast
  have s: "snd ` set ?ps = set (OutputDefs node)"
    using assms(2) by (rule zip_snd_set)
  have "fold_node ex graph i node modified = Inr (RemoveNode (RemoveNodeOutputEdges g' i) i, True)"
    using assms g' by (simp add: fold_node_def Let_def)
  with g' out inn add_fetches_frame [of graph ?ps g'] show ?thesis
    unfolding s by blast
qed

lemma fold_node_not_tensor:
  assumes "snd (Compute ex node (GetAllInitializedTensors graph)) = fetches"
    and "length fetches = length (OutputDefs node)"
    and "k < length fetches" and "list_all IsTensor (take k fetches)" and "\<not> IsTensor (fetches ! k)"
  shows "\<exists>g'. fold_node ex graph i node modified = Inl (Enforce_IsTensor, g', modified)
     \<and> nodes g' = nodes graph \<and> edges g' = edges graph
     \<and> graph_inputs g' = graph_inputs graph \<and> graph_outputs g' = graph_outputs graph
     \<and> (\<forall>x. x \<notin> Name ` set (take k (OutputDefs node)) \<longrightarrow> initializers g' x = initializers graph x)
     \<and> (\<forall>x \<in> Name ` set (take k (OutputDefs node)). initializers g' x \<noteq> None)"
proof -
  let ?ps = "zip fetches (OutputDefs node)"
  have tk: "take k ?ps = zip (take k fetches) (take k (OutputDefs node))"
    by (simp add: take_zip)
  have l: "length (take k fetches) = length (take k (OutputDefs node))"
    using assms(2) by simp
  have 1: "k < length ?ps" using assms by simp
  have 2: "list_all IsTensor (map fst (take k ?ps))"
    unfolding tk using assms(4) l by simp
  have 3: "\<not> IsTensor (fst (?ps ! k))" using assms by simp
  from add_fetches_not_tensor [OF 1 2 3, of graph] obtain g' where
    g': "add_fetches graph ?ps = Inl (Enforce_IsTensor, g')"
    and out: "\<forall>x. x \<notin> Name ` snd ` set (take k ?ps) \<longrightarrow> initializers g' x = initializers graph x"
    and inn: "\<forall>x \<in> Name ` snd ` set (take k ?ps). initializers g' x \<noteq> None"
    by blast
  have s: "snd ` set (take k ?ps) = set (take k (OutputDefs node))"
    unfolding tk using l by (rule zip_snd_set)
  have "fold_node ex graph i node modified = Inl (Enforce_IsTensor, g', modified)"
    using assms g' by (simp add: fold_node_def Let_def)
  with out inn add_fetches_frame [of graph ?ps g' Enforce_IsTensor] g' show ?thesis
    unfolding s by blast
qed




lemma loop_step_eligible:
  assumes "GetNode g i = Some node" and "eligible cf g i node"
  shows "ApplyImpl_loop ap cf ex (i # order) g m l =
    (case fold_node ex g i node m of
       Inl err \<Rightarrow> Some (Inl err)
     | Inr (g', m') \<Rightarrow> ApplyImpl_loop ap cf ex order g' m' l)"
  using assms
  by (simp add: Recurse_no_subgraphs [OF eligible_no_subgraphs [OF assms(2)]]
      SetNode_same visit_node_def)

lemma loop_step_skip:
  assumes "GetNode g i = Some node"
    and "Recurse ap node m l = Some (Inr (node', m'))"
    and "\<not> eligible cf (SetNode g i node') i node'"
  shows "ApplyImpl_loop ap cf ex (i # order) g m l =
     ApplyImpl_loop ap cf ex order (SetNode g i node') m' l"
  using assms by (simp add: visit_node_def)

text \<open>Independence of members the pass never reads.\<close>

lemma eligible_cong:
  assumes "compatible_execution_providers cf' = compatible_execution_providers cf"
    and "excluded_op_types cf' = excluded_op_types cf"
  shows "eligible cf' g i n = eligible cf g i n"
  using assms by (simp add: eligible_def)

lemma fold_node_cong:
  assumes "\<And>n inits. snd (Compute ex' n inits) = snd (Compute ex n inits)"
  shows "fold_node ex' g i n m = fold_node ex g i n m"
  using assms by (simp add: fold_node_def)

lemma ApplyImpl_loop_cong:
  assumes "compatible_execution_providers cf' = compatible_execution_providers cf"
    and "excluded_op_types cf' = excluded_op_types cf"
    and "\<And>n inits. snd (Compute ex' n inits) = snd (Compute ex n inits)"
  shows "ApplyImpl_loop ap cf' ex' order g m l = ApplyImpl_loop ap cf ex order g m l"
proof (induction order arbitrary: g m)
  case Nil
  show ?case by simp
next
  case (Cons i order)
  have v: "visit_node cf' ex' g0 i0 n0 m0 = visit_node cf ex g0 i0 n0 m0" for g0 i0 n0 m0
    by (simp add: visit_node_def eligible_cong [OF assms(1,2)] fold_node_cong [of ex' ex, OF assms(3)])
  show ?case
    by (simp add: v Cons.IH split: option.splits sum.splits prod.splits)
qed

lemma ApplyImpl_fuel_cong:
  assumes "compatible_execution_providers cf' = compatible_execution_providers cf"
    and "excluded_op_types cf' = excluded_op_types cf"
    and "\<And>n inits. snd (Compute ex' n inits) = snd (Compute ex n inits)"
    and "GetNodesInTopologicalOrder ex' = GetNodesInTopologicalOrder ex"
  shows "ApplyImpl_fuel k cf' ex' = ApplyImpl_fuel k cf ex"
proof (induction k)
  case 0
  show ?case by (simp add: fun_eq_iff)
next
  case (Suc k)
  show ?case
    by (simp add: fun_eq_iff Suc.IH assms(4) ApplyImpl_loop_cong [of cf' cf ex' ex, OF assms(1-3)])
qed



lemma add_fetches_tensors_only:
  "add_fetches g ps = Inr g' \<Longrightarrow> list_all IsTensor (map fst ps)"
proof (induction g ps rule: add_fetches.induct)
  case (1 graph)
  then show ?case by simp
next
  case (2 graph ort_value constant_arg_out rest)
  then show ?case
    by (cases ort_value) (auto simp: BuildTensorProtoForInitializer_def split: sum.splits)
qed


lemma GetNode_nodes_eq: "nodes g' = nodes g \<Longrightarrow> GetNode g' i = GetNode g i"
  by (simp add: GetNode_def)
section \<open>Nesting depth and termination\<close>

lemma outcome_value_simps [simp]:
  "outcome_value (Inl (e, x)) = x" "outcome_value (Inr x) = x"
  by (simp_all add: outcome_value_def)

lemma outcome_graph_simps [simp]:
  "outcome_graph (Inl (e, g, m)) = g" "outcome_graph (Inr (g, m)) = g"
  by (simp_all add: outcome_graph_def)

lemma fold_max_le_iff:
  fixes a k :: nat
  shows "fold max xs a \<le> k \<longleftrightarrow> a \<le> k \<and> (\<forall>x \<in> set xs. x \<le> k)"
  by (induction xs arbitrary: a) auto

lemma node_depth_le_iff:
  "node_depth n \<le> k \<longleftrightarrow> (\<forall>sg \<in> set (subgraphs n). graph_depth sg \<le> k)"
  by (cases n) (simp add: fold_max_le_iff)

lemma graph_depth_le_iff:
  "graph_depth g \<le> Suc k \<longleftrightarrow> (\<forall>n. Some n \<in> set (nodes g) \<longrightarrow> node_depth n \<le> k)"
proof (cases g)
  case (Graph ns inits es gi go)
  have "(\<forall>x \<in> set ns. (case x of None \<Rightarrow> 0 | Some node \<Rightarrow> node_depth node) \<le> k) \<longleftrightarrow>
      (\<forall>n. Some n \<in> set ns \<longrightarrow> node_depth n \<le> k)"
    by (auto split: option.splits)
  then show ?thesis
    using Graph by (simp add: fold_max_le_iff)
qed

lemma graph_depth_pos: "0 < graph_depth g"
  by (cases g) simp

lemma GetNode_in_set: "GetNode g i = Some n \<Longrightarrow> Some n \<in> set (nodes g)"
  by (auto simp: GetNode_def split: if_splits dest: nth_mem)

lemma graph_depth_SetNode:
  assumes "graph_depth g \<le> Suc k" and "node_depth n \<le> k"
  shows "graph_depth (SetNode g i n) \<le> Suc k"
proof -
  have "set ((nodes g)[i := Some n]) \<subseteq> insert (Some n) (set (nodes g))"
    by (rule set_update_subset_insert)
  with assms show ?thesis
    unfolding graph_depth_le_iff by auto
qed

lemma graph_depth_RemoveNode:
  assumes "graph_depth g \<le> Suc k"
  shows "graph_depth (RemoveNode g i) \<le> Suc k"
proof -
  have "set ((nodes g)[i := None]) \<subseteq> insert None (set (nodes g))"
    by (rule set_update_subset_insert)
  with assms show ?thesis
    unfolding graph_depth_le_iff by auto
qed

lemma graph_depth_nodes_eq:
  "nodes g' = nodes g \<Longrightarrow> graph_depth g' = graph_depth g"
  by (cases g; cases g') simp

text \<open>What a fold leaves behind.\<close>

lemma add_fetches_initializers:
  assumes "add_fetches g ps = Inr g' \<or> add_fetches g ps = Inl (e, g')"
  shows "\<forall>x. x \<notin> Name ` snd ` set ps \<longrightarrow> initializers g' x = initializers g x"
  using assms
proof (induction g ps rule: add_fetches.induct)
  case (1 graph)
  then show ?case by simp
next
  case (2 graph ort_value constant_arg_out rest)
  show ?case
  proof (cases ort_value)
    case NonTensorValue
    with "2.prems" show ?thesis by (simp add: BuildTensorProtoForInitializer_def)
  next
    case (TensorValue t)
    let ?tp = "\<lparr> name = Name constant_arg_out, dims = GetDims t,
      data_type = elem_type constant_arg_out, raw_data = take (data_size t) (DataRaw t) \<rparr>"
    have b: "BuildTensorProtoForInitializer ort_value constant_arg_out = Inr ?tp"
      by (simp add: TensorValue BuildTensorProtoForInitializer_def)
    from "2.prems" b have
      "add_fetches (AddInitializedTensor graph ?tp) rest = Inr g' \<or>
       add_fetches (AddInitializedTensor graph ?tp) rest = Inl (e, g')"
      by simp
    from "2.IH" [OF b this] show ?thesis by auto
  qed
qed

lemma fold_node_effect:
  assumes "fold_node ex g i n m = r"
  shows "(\<forall>x. x \<notin> Name ` set (OutputDefs n) \<longrightarrow>
            initializers (outcome_graph r) x = initializers g x)
     \<and> graph_inputs (outcome_graph r) = graph_inputs g
     \<and> graph_outputs (outcome_graph r) = graph_outputs g
     \<and> (case r of
          Inl (e, g', m') \<Rightarrow> nodes g' = nodes g \<and> edges g' = edges g \<and> m' = m
        | Inr (g', m') \<Rightarrow> nodes g' = (nodes g)[i := None]
            \<and> edges g' = filter (\<lambda>e. fst e \<noteq> i) (edges g) \<and> m' = True
            \<and> (\<forall>x \<in> Name ` set (OutputDefs n). initializers g' x \<noteq> None))"
proof -
  let ?fetches = "snd (Compute ex n (GetAllInitializedTensors g))"
  let ?ps = "zip ?fetches (OutputDefs n)"
  show ?thesis
  proof (cases "length ?fetches = length (OutputDefs n)")
    case False
    then have "r = Inl (Enforce_fetches_size, g, m)"
      using assms by (simp add: fold_node_def)
    then show ?thesis by simp
  next
    case True
    have sub: "Name ` snd ` set ?ps \<subseteq> Name ` set (OutputDefs n)"
      using zip_snd_set [OF True] by simp
    show ?thesis
    proof (cases "add_fetches g ?ps")
      case (Inl p)
      obtain e g1 where p: "p = (e, g1)" by (cases p)
      have r: "r = Inl (e, g1, m)"
        using assms True Inl p by (simp add: fold_node_def)
      from add_fetches_frame [of g ?ps g1 e] add_fetches_initializers [of g ?ps g1 e] Inl p sub
      show ?thesis unfolding r by auto
    next
      case (Inr g1)
      have r: "r = Inr (RemoveNode (RemoveNodeOutputEdges g1 i) i, True)"
        using assms True Inr by (simp add: fold_node_def)
      have t: "list_all IsTensor (map fst ?ps)"
        using Inr by (rule add_fetches_tensors_only)
      from add_fetches_tensors [OF t, of g] Inr
      have inn: "\<forall>x \<in> Name ` snd ` set ?ps. initializers g1 x \<noteq> None" by simp
      from add_fetches_frame [of g ?ps g1] add_fetches_initializers [of g ?ps g1] Inr sub inn
        zip_snd_set [OF True]
      show ?thesis unfolding r by auto
    qed
  qed
qed

lemma fold_node_Inl:
  assumes "fold_node ex g i n m = Inl (e, g', m')"
  shows "nodes g' = nodes g" "edges g' = edges g" "m' = m"
    "graph_inputs g' = graph_inputs g" "graph_outputs g' = graph_outputs g"
    "\<And>x. x \<notin> Name ` set (OutputDefs n) \<Longrightarrow> initializers g' x = initializers g x"
  using fold_node_effect [OF assms] by simp_all

lemma fold_node_Inr:
  assumes "fold_node ex g i n m = Inr (g', m')"
  shows "nodes g' = (nodes g)[i := None]" "edges g' = filter (\<lambda>e. fst e \<noteq> i) (edges g)"
    "m' = True"
    "graph_inputs g' = graph_inputs g" "graph_outputs g' = graph_outputs g"
    "\<And>x. x \<notin> Name ` set (OutputDefs n) \<Longrightarrow> initializers g' x = initializers g x"
    "\<And>x. x \<in> Name ` set (OutputDefs n) \<Longrightarrow> initializers g' x \<noteq> None"
  using fold_node_effect [OF assms] by auto

lemma visit_node_depth:
  assumes "graph_depth g \<le> Suc k"
  shows "graph_depth (outcome_graph (visit_node cf ex g i n m)) \<le> Suc k"
proof (cases "eligible cf g i n")
  case False
  with assms show ?thesis by (simp add: visit_node_def)
next
  case True
  have "graph_depth (outcome_graph (fold_node ex g i n m)) \<le> Suc k"
  proof (cases "fold_node ex g i n m")
    case (Inl p)
    obtain e g' m' where p: "p = (e, g', m')" by (cases p)
    from Inl p have "nodes g' = nodes g" by (simp add: fold_node_Inl(1))
    then have "graph_depth g' = graph_depth g" by (rule graph_depth_nodes_eq)
    with assms Inl p show ?thesis by simp
  next
    case (Inr p)
    obtain g' m' where p: "p = (g', m')" by (cases p)
    from Inr p have "nodes g' = nodes (RemoveNode g i)" by (simp add: fold_node_Inr(1))
    then have "graph_depth g' = graph_depth (RemoveNode g i)" by (rule graph_depth_nodes_eq)
    with graph_depth_RemoveNode [OF assms, of i] Inr p show ?thesis by simp
  qed
  with True show ?thesis by (simp add: visit_node_def)
qed

text \<open>Enough fuel: the pass returns, and the graph it leaves is no deeper.\<close>

lemma Recurse_subgraphs_returns:
  assumes "returns_within k ap" and "d \<le> k"
    and "\<forall>sg \<in> set gs. graph_depth sg \<le> d"
  shows "\<exists>r. Recurse_subgraphs ap gs m l = Some r
     \<and> (\<forall>sg \<in> set (fst (outcome_value r)). graph_depth sg \<le> d)"
  using assms(3)
proof (induction gs arbitrary: m)
  case Nil
  show ?case by simp
next
  case (Cons sg gs)
  from assms(1,2) Cons.prems obtain r where
    r: "ap sg m l = Some r" and dr: "graph_depth (outcome_graph r) \<le> d"
    unfolding returns_within_def by (metis list.set_intros(1))
  show ?case
  proof (cases r)
    case (Inl p)
    obtain e sg' m' where p: "p = (e, sg', m')" by (cases p)
    with r Inl dr Cons.prems show ?thesis by simp
  next
    case (Inr p) note rI = this
    obtain sg' m' where p: "p = (sg', m')" by (cases p)
    from Cons.IH [of m'] Cons.prems obtain r2 where
      r2: "Recurse_subgraphs ap gs m' l = Some r2"
      and d2: "\<forall>sg \<in> set (fst (outcome_value r2)). graph_depth sg \<le> d"
      by auto
    show ?thesis
    proof (cases r2)
      case (Inl q)
      obtain e gs' m'' where "q = (e, gs', m'')" by (cases q)
      with r rI p r2 Inl d2 dr show ?thesis by simp
    next
      case (Inr q)
      obtain gs' m'' where "q = (gs', m'')" by (cases q)
      with r rI p r2 Inr d2 dr show ?thesis by simp
    qed
  qed
qed

lemma Recurse_returns:
  assumes "returns_within k ap" and "d \<le> k" and "node_depth n \<le> d"
  shows "\<exists>r. Recurse ap n m l = Some r \<and> node_depth (fst (outcome_value r)) \<le> d"
proof -
  from assms(3) have "\<forall>sg \<in> set (subgraphs n). graph_depth sg \<le> d"
    by (simp add: node_depth_le_iff)
  from Recurse_subgraphs_returns [OF assms(1,2) this, of m "l + 1"] obtain r where
    r: "Recurse_subgraphs ap (subgraphs n) m (l + 1) = Some r"
    and dr: "\<forall>sg \<in> set (fst (outcome_value r)). graph_depth sg \<le> d"
    by blast
  show ?thesis
  proof (cases r)
    case (Inl p)
    obtain e gs m' where "p = (e, gs, m')" by (cases p)
    with r Inl dr show ?thesis by (simp add: Recurse_def node_depth_le_iff)
  next
    case (Inr p)
    obtain gs m' where "p = (gs, m')" by (cases p)
    with r Inr dr show ?thesis by (simp add: Recurse_def node_depth_le_iff)
  qed
qed

lemma ApplyImpl_loop_returns:
  assumes "returns_within k ap" and "d \<le> k"
  shows "graph_depth g \<le> Suc d \<Longrightarrow>
    \<exists>r. ApplyImpl_loop ap cf ex order g m l = Some r \<and> graph_depth (outcome_graph r) \<le> Suc d"
proof (induction order arbitrary: g m)
  case Nil
  then show ?case by simp
next
  case (Cons i order)
  show ?case
  proof (cases "GetNode g i")
    case None
    with Cons.IH [OF Cons.prems, of m] show ?thesis by simp
  next
    case (Some n)
    then have "node_depth n \<le> d"
      using Cons.prems GetNode_in_set graph_depth_le_iff by blast
    from Recurse_returns [OF assms this, of m l] obtain r where
      r: "Recurse ap n m l = Some r" and dr: "node_depth (fst (outcome_value r)) \<le> d"
      by blast
    show ?thesis
    proof (cases r)
      case (Inl p)
      obtain e n' m' where p: "p = (e, n', m')" by (cases p)
      with Inl dr have "node_depth n' \<le> d" by simp
      from graph_depth_SetNode [OF Cons.prems this, of i] Some r Inl p
      show ?thesis by simp
    next
      case (Inr p) note rI = this
      obtain n' m' where p: "p = (n', m')" by (cases p)
      with Inr dr have "node_depth n' \<le> d" by simp
      from graph_depth_SetNode [OF Cons.prems this, of i]
      have d1: "graph_depth (SetNode g i n') \<le> Suc d" .
      let ?v = "visit_node cf ex (SetNode g i n') i n' m'"
      have dv: "graph_depth (outcome_graph ?v) \<le> Suc d"
        using d1 by (rule visit_node_depth)
      show ?thesis
      proof (cases ?v)
        case (Inl q)
        obtain e g' m'' where "q = (e, g', m'')" by (cases q)
        with Some r rI p Inl dv show ?thesis by simp
      next
        case (Inr q) note v = this
        obtain g' m'' where q: "q = (g', m'')" by (cases q)
        with v dv have "graph_depth g' \<le> Suc d" by simp
        from Cons.IH [OF this, of m''] Some r rI p v q show ?thesis by simp
      qed
    qed
  qed
qed

lemma ApplyImpl_fuel_returns: "returns_within k (ApplyImpl_fuel k cf ex)"
proof (induction k)
  case 0
  show ?case
    unfolding returns_within_def using graph_depth_pos by (metis le_zero_eq less_numeral_extra(3) le_trans)
next
  case (Suc k)
  show ?case
    unfolding returns_within_def
  proof (intro allI impI)
    fix sg m l d
    assume a: "graph_depth sg \<le> d \<and> d \<le> Suc k"
    from graph_depth_pos [of sg] a obtain d' where d': "d = Suc d'"
      by (cases d) auto
    with a have "d' \<le> k" and "graph_depth sg \<le> Suc d'" by simp_all
    from ApplyImpl_loop_returns [OF Suc.IH this]
    show "\<exists>r. ApplyImpl_fuel (Suc k) cf ex sg m l = Some r \<and> graph_depth (outcome_graph r) \<le> d"
      unfolding d' by simp
  qed
qed

lemma ApplyImpl_returns:
  "\<exists>r. ApplyImpl cf ex g m l = Some r \<and> graph_depth (outcome_graph r) \<le> graph_depth g"
  using ApplyImpl_fuel_returns [of "graph_depth g" cf ex]
  unfolding returns_within_def ApplyImpl_def by blast

text \<open>A graph with nothing left to fold is returned as it is.\<close>

lemma node_quiescent_iff:
  "node_quiescent cf n \<longleftrightarrow> (\<forall>sg \<in> set (subgraphs n). graph_quiescent cf sg)"
  by (cases n) simp

lemma graph_quiescent_iff:
  "graph_quiescent cf g \<longleftrightarrow>
     (\<forall>i n. GetNode g i = Some n \<longrightarrow> \<not> eligible cf g i n \<and> node_quiescent cf n)"
proof (cases g)
  case (Graph ns inits es gi go)
  have "(\<forall>x \<in> set ns. case x of None \<Rightarrow> True | Some node \<Rightarrow> node_quiescent cf node) \<longleftrightarrow>
      (\<forall>i < length ns. \<forall>n. ns ! i = Some n \<longrightarrow> node_quiescent cf n)"
    by (auto simp: all_set_conv_all_nth split: option.splits)
  then show ?thesis
    unfolding Graph by (auto simp: GetNode_def)
qed

lemma Recurse_subgraphs_noop:
  assumes "\<forall>sg \<in> set gs. \<forall>m. ap sg m l = Some (Inr (sg, m))"
  shows "Recurse_subgraphs ap gs m l = Some (Inr (gs, m))"
  using assms by (induction gs arbitrary: m) simp_all

lemma Recurse_noop:
  assumes "\<forall>sg \<in> set (subgraphs n). \<forall>m. ap sg m (l + 1) = Some (Inr (sg, m))"
  shows "Recurse ap n m l = Some (Inr (n, m))"
  using Recurse_subgraphs_noop [of "subgraphs n" ap "l + 1" m] assms by (simp add: Recurse_def)

lemma ApplyImpl_loop_noop:
  assumes "\<forall>i n. GetNode g i = Some n \<longrightarrow>
      \<not> eligible cf g i n \<and> (\<forall>m. Recurse ap n m l = Some (Inr (n, m)))"
  shows "ApplyImpl_loop ap cf ex order g m l = Some (Inr (g, m))"
proof (induction order)
  case Nil
  show ?case by simp
next
  case (Cons i order)
  show ?case
  proof (cases "GetNode g i")
    case None
    with Cons.IH show ?thesis by simp
  next
    case (Some n)
    with assms have ne: "\<not> eligible cf g i n" and r: "Recurse ap n m l = Some (Inr (n, m))"
      by blast+
    from Some r ne Cons.IH show ?thesis
      by (simp add: SetNode_same visit_node_def)
  qed
qed

lemma ApplyImpl_fuel_noop:
  "graph_quiescent cf g \<Longrightarrow> graph_depth g \<le> k \<Longrightarrow>
     ApplyImpl_fuel k cf ex g m l = Some (Inr (g, m))"
proof (induction k arbitrary: g m l)
  case 0
  with graph_depth_pos [of g] show ?case by simp
next
  case (Suc k)
  have "\<not> eligible cf g i n \<and>
      (\<forall>m. Recurse (ApplyImpl_fuel k cf ex) n m l = Some (Inr (n, m)))"
    if n: "GetNode g i = Some n" for i n
  proof -
    from Suc.prems(1) n have ne: "\<not> eligible cf g i n" and q: "node_quiescent cf n"
      by (simp_all add: graph_quiescent_iff)
    from Suc.prems(2) n have "node_depth n \<le> k"
      using GetNode_in_set graph_depth_le_iff by blast
    then have "\<forall>sg \<in> set (subgraphs n). \<forall>m.
        ApplyImpl_fuel k cf ex sg m (l + 1) = Some (Inr (sg, m))"
      using q Suc.IH by (simp add: node_quiescent_iff node_depth_le_iff)
    then have "\<forall>m. Recurse (ApplyImpl_fuel k cf ex) n m l = Some (Inr (n, m))"
      using Recurse_noop by blast
    with ne show ?thesis by simp
  qed
  then show ?case
    using ApplyImpl_loop_noop [of g cf "ApplyImpl_fuel k cf ex" l ex] by simp
qed
section \<open>The rounds of the loop\<close>

text \<open>The descent changes nothing of a node but the subgraphs.\<close>

lemma Recurse_subgraphs_length:
  "Recurse_subgraphs ap gs m l = Some r \<Longrightarrow> length (fst (outcome_value r)) = length gs"
proof (induction gs arbitrary: m r)
  case Nil
  then show ?case by auto
next
  case (Cons sg gs)
  show ?case
  proof (cases "ap sg m l")
    case None
    with Cons.prems show ?thesis by simp
  next
    case (Some q)
    show ?thesis
    proof (cases q)
      case (Inl p)
      obtain e sg' m' where "p = (e, sg', m')" by (cases p)
      with Cons.prems Some Inl show ?thesis by auto
    next
      case (Inr p)
      obtain sg' m' where p: "p = (sg', m')" by (cases p)
      obtain q2 where q2: "Recurse_subgraphs ap gs m' l = Some q2"
        using Cons.prems Some Inr p by (cases "Recurse_subgraphs ap gs m' l") simp_all
      from Cons.IH [OF q2] have len: "length (fst (outcome_value q2)) = length gs" .
      show ?thesis
      proof (cases q2)
        case (Inl u)
        obtain e gs' m'' where "u = (e, gs', m'')" by (cases u)
        with Cons.prems Some \<open>q = Inr p\<close> p q2 Inl len show ?thesis by auto
      next
        case (Inr u)
        obtain gs' m'' where "u = (gs', m'')" by (cases u)
        with Cons.prems Some \<open>q = Inr p\<close> p q2 Inr len show ?thesis by auto
      qed
    qed
  qed
qed

lemma Recurse_fields:
  assumes "Recurse ap n m l = Some r"
  shows "OpType (fst (outcome_value r)) = OpType n"
    and "GetExecutionProviderType (fst (outcome_value r)) = GetExecutionProviderType n"
    and "InputDefs (fst (outcome_value r)) = InputDefs n"
    and "OutputDefs (fst (outcome_value r)) = OutputDefs n"
    and "length (subgraphs (fst (outcome_value r))) = length (subgraphs n)"
proof -
  obtain q where q: "Recurse_subgraphs ap (subgraphs n) m (l + 1) = Some q"
    using assms by (auto simp: Recurse_def split: option.splits)
  have "fst (outcome_value r) = with_subgraphs n (fst (outcome_value q))"
    using assms q by (auto simp: Recurse_def split: sum.splits)
  with Recurse_subgraphs_length [OF q]
  show "OpType (fst (outcome_value r)) = OpType n"
    and "GetExecutionProviderType (fst (outcome_value r)) = GetExecutionProviderType n"
    and "InputDefs (fst (outcome_value r)) = InputDefs n"
    and "OutputDefs (fst (outcome_value r)) = OutputDefs n"
    and "length (subgraphs (fst (outcome_value r))) = length (subgraphs n)"
    by simp_all
qed

lemma Recurse_Inr_fields:
  assumes "Recurse ap n m l = Some (Inr (n', m'))"
  shows "OpType n' = OpType n" "GetExecutionProviderType n' = GetExecutionProviderType n"
    "InputDefs n' = InputDefs n" "OutputDefs n' = OutputDefs n"
    "length (subgraphs n') = length (subgraphs n)"
  using Recurse_fields [OF assms] by simp_all

lemma Recurse_Inl_fields:
  assumes "Recurse ap n m l = Some (Inl (e, n', m'))"
  shows "OpType n' = OpType n" "GetExecutionProviderType n' = GetExecutionProviderType n"
    "InputDefs n' = InputDefs n" "OutputDefs n' = OutputDefs n"
    "length (subgraphs n') = length (subgraphs n)"
  using Recurse_fields [OF assms] by simp_all

text \<open>The five ways one round of the loop can go.\<close>

lemma ApplyImpl_loop_Cons_cases [consumes 1, case_names absent raised_below skipped raised folded]:
  assumes "ApplyImpl_loop ap cf ex (j # order) g m l = Some r"
  obtains
    (absent) "GetNode g j = None" "ApplyImpl_loop ap cf ex order g m l = Some r"
  | (raised_below) nj e nj' m' where "GetNode g j = Some nj"
      "Recurse ap nj m l = Some (Inl (e, nj', m'))" "r = Inl (e, SetNode g j nj', m')"
  | (skipped) nj nj' m' where "GetNode g j = Some nj"
      "Recurse ap nj m l = Some (Inr (nj', m'))" "\<not> eligible cf (SetNode g j nj') j nj'"
      "ApplyImpl_loop ap cf ex order (SetNode g j nj') m' l = Some r"
  | (raised) nj e g2 m2 where "GetNode g j = Some nj" "eligible cf g j nj"
      "fold_node ex g j nj m = Inl (e, g2, m2)" "r = Inl (e, g2, m2)"
  | (folded) nj g3 m3 where "GetNode g j = Some nj" "eligible cf g j nj"
      "fold_node ex g j nj m = Inr (g3, m3)" "ApplyImpl_loop ap cf ex order g3 m3 l = Some r"
proof (cases "GetNode g j")
  case None
  with assms absent show ?thesis by simp
next
  case (Some nj)
  from assms Some obtain q where q: "Recurse ap nj m l = Some q"
    by (cases "Recurse ap nj m l") simp_all
  show ?thesis
  proof (cases q)
    case (Inl p)
    obtain e nj' m' where "p = (e, nj', m')" by (cases p)
    with assms Some q Inl raised_below show ?thesis by simp
  next
    case (Inr p)
    obtain nj' m' where p: "p = (nj', m')" by (cases p)
    note rec = q [unfolded Inr p]
    show ?thesis
    proof (cases "eligible cf (SetNode g j nj') j nj'")
      case False
      with assms Some rec skipped show ?thesis by (simp add: visit_node_def)
    next
      case True
      then have "subgraphs nj' = []" by (rule eligible_no_subgraphs)
      with Recurse_Inr_fields(5) [OF rec] have "subgraphs nj = []" by simp
      from Recurse_no_subgraphs [OF this, of ap m l] rec have same: "nj' = nj" "m' = m"
        by simp_all
      have g: "SetNode g j nj = g" using Some by (rule SetNode_same)
      from True have el: "eligible cf g j nj" by (simp add: same g)
      show ?thesis
      proof (cases "fold_node ex g j nj m")
        case (Inl u)
        obtain e g2 m2 where u: "u = (e, g2, m2)" by (cases u)
        have "r = Inl (e, g2, m2)"
          using assms Some rec same g el Inl u by (simp add: visit_node_def)
        with Some el Inl u show ?thesis by (intro raised) simp_all
      next
        case (Inr u) note f = this
        obtain g3 m3 where u: "u = (g3, m3)" by (cases u)
        have "ApplyImpl_loop ap cf ex order g3 m3 l = Some r"
          using assms Some rec same g el f u by (simp add: visit_node_def)
        with Some el f u show ?thesis by (intro folded) simp_all
      qed
    qed
  qed
qed

lemma GetNode_nodes_update:
  assumes "nodes g' = (nodes g)[j := v]"
  shows "GetNode g' k = (if k = j \<and> j < length (nodes g) then v else GetNode g k)"
  using assms by (simp add: GetNode_def)

lemma GetNode_less: "GetNode g j = Some n \<Longrightarrow> j < length (nodes g)"
  by (simp add: GetNode_def split: if_splits)

lemma ApplyImpl_loop_keeps_excluded:
  assumes "ApplyImpl_loop ap cf ex order g m l = Some r"
    and "GetNode g i = Some n"
    and "OpType n = ot" and "InputDefs n = ins" and "OutputDefs n = outs"
    and "ot \<in> excluded_op_types cf"
    and "\<forall>j other. j \<noteq> i \<longrightarrow> GetNode g j = Some other \<longrightarrow>
           Name ` set (OutputDefs other) \<inter> Name ` set outs = {}"
  shows "(\<exists>n'. GetNode (outcome_graph r) i = Some n' \<and> OpType n' = ot \<and> InputDefs n' = ins
            \<and> OutputDefs n' = outs)
       \<and> (\<forall>x \<in> Name ` set outs. initializers (outcome_graph r) x = initializers g x)"
  using assms(1,2,3,4,5,7)
proof (induction order arbitrary: g m n)
  case Nil
  then show ?case by auto
next
  case (Cons j order)
  note ssa = Cons.prems(6)
  from Cons.prems(1) show ?case
  proof (cases rule: ApplyImpl_loop_Cons_cases)
    case absent
    from Cons.IH [OF absent(2) Cons.prems(2-6)] show ?thesis .
  next
    case (raised_below nj e nj' m')
    have lt: "j < length (nodes g)" using raised_below(1) by (rule GetNode_less)
    show ?thesis
    proof (cases "j = i")
      case True
      with raised_below(1) Cons.prems(2) have "nj = n" by simp
      with Recurse_Inl_fields [OF raised_below(2)] Cons.prems(3-5)
      have "OpType nj' = ot" "InputDefs nj' = ins" "OutputDefs nj' = outs" by simp_all
      with True lt raised_below(3) show ?thesis by (simp add: GetNode_SetNode)
    next
      case False
      with Cons.prems(2-5) raised_below(3) show ?thesis by (simp add: GetNode_SetNode)
    qed
  next
    case (skipped nj nj' m')
    have lt: "j < length (nodes g)" using skipped(1) by (rule GetNode_less)
    let ?g1 = "SetNode g j nj'"
    let ?n1 = "if j = i then nj' else n"
    have n1: "GetNode ?g1 i = Some ?n1"
      using lt Cons.prems(2) by (simp add: GetNode_SetNode)
    have "j = i \<Longrightarrow> nj = n" using skipped(1) Cons.prems(2) by simp
    with Recurse_Inr_fields [OF skipped(2)] Cons.prems(3-5)
    have f1: "OpType ?n1 = ot" "InputDefs ?n1 = ins" "OutputDefs ?n1 = outs" by auto
    have ssa1: "\<forall>k other. k \<noteq> i \<longrightarrow> GetNode ?g1 k = Some other \<longrightarrow>
           Name ` set (OutputDefs other) \<inter> Name ` set outs = {}"
    proof (intro allI impI)
      fix k other
      assume k: "k \<noteq> i" and o: "GetNode ?g1 k = Some other"
      show "Name ` set (OutputDefs other) \<inter> Name ` set outs = {}"
      proof (cases "k = j")
        case True
        with o lt have "other = nj'" by (simp add: GetNode_SetNode)
        with Recurse_Inr_fields(4) [OF skipped(2)] have "OutputDefs other = OutputDefs nj" by simp
        with ssa k True skipped(1) show ?thesis by metis
      next
        case False
        with o have "GetNode g k = Some other" by (simp add: GetNode_SetNode)
        with ssa k show ?thesis by blast
      qed
    qed
    from Cons.IH [OF skipped(4) n1 f1 ssa1] show ?thesis by simp
  next
    case (raised nj e g2 m2)
    have ji: "j \<noteq> i"
    proof
      assume "j = i"
      with raised(1) Cons.prems(2) have "nj = n" by simp
      with raised(2) Cons.prems(3) assms(6) show False by (simp add: eligible_def)
    qed
    from ssa ji raised(1) have dis: "Name ` set (OutputDefs nj) \<inter> Name ` set outs = {}"
      by blast
    have "GetNode g2 i = GetNode g i"
      using fold_node_Inl(1) [OF raised(3)] by (rule GetNode_nodes_eq)
    moreover have "\<forall>x \<in> Name ` set outs. initializers g2 x = initializers g x"
      using fold_node_Inl(6) [OF raised(3)] dis by blast
    ultimately show ?thesis
      using Cons.prems(2-5) raised(4) by simp
  next
    case (folded nj g3 m3)
    have ji: "j \<noteq> i"
    proof
      assume "j = i"
      with folded(1) Cons.prems(2) have "nj = n" by simp
      with folded(2) Cons.prems(3) assms(6) show False by (simp add: eligible_def)
    qed
    from ssa ji folded(1) have dis: "Name ` set (OutputDefs nj) \<inter> Name ` set outs = {}"
      by blast
    note upd = GetNode_nodes_update [OF fold_node_Inr(1) [OF folded(3)]]
    have n3: "GetNode g3 i = Some n"
      using upd [of i] ji Cons.prems(2) by simp
    have i3: "\<forall>x \<in> Name ` set outs. initializers g3 x = initializers g x"
      using fold_node_Inr(6) [OF folded(3)] dis by blast
    have ssa3: "\<forall>k other. k \<noteq> i \<longrightarrow> GetNode g3 k = Some other \<longrightarrow>
           Name ` set (OutputDefs other) \<inter> Name ` set outs = {}"
    proof (intro allI impI)
      fix k other
      assume k: "k \<noteq> i" and o: "GetNode g3 k = Some other"
      from o upd [of k] have "GetNode g k = Some other" by (simp split: if_splits)
      with ssa k show "Name ` set (OutputDefs other) \<inter> Name ` set outs = {}" by blast
    qed
    from Cons.IH [OF folded(4) n3 Cons.prems(3-5) ssa3] i3 show ?thesis by simp
  qed
qed
section \<open>The invariant of the loop on a resolved graph\<close>

text \<open>The invariants in terms of node lookup.\<close>

lemma edges_complete_iff:
  "edges_complete g \<longleftrightarrow>
     (\<forall>i j producer consumer. GetNode g i = Some producer \<longrightarrow> GetNode g j = Some consumer \<longrightarrow>
        Name ` set (OutputDefs producer) \<inter> Name ` set (InputDefs consumer) \<noteq> {} \<longrightarrow>
        (\<exists>e \<in> set (edges g). fst e = i \<and> fst (snd e) = j))"
proof
  assume c: "edges_complete g"
  show "\<forall>i j producer consumer. GetNode g i = Some producer \<longrightarrow> GetNode g j = Some consumer \<longrightarrow>
        Name ` set (OutputDefs producer) \<inter> Name ` set (InputDefs consumer) \<noteq> {} \<longrightarrow>
        (\<exists>e \<in> set (edges g). fst e = i \<and> fst (snd e) = j)"
  proof (intro allI impI)
    fix i j producer consumer
    assume p: "GetNode g i = Some producer" and q: "GetNode g j = Some consumer"
      and s: "Name ` set (OutputDefs producer) \<inter> Name ` set (InputDefs consumer) \<noteq> {}"
    from p q have "i < length (nodes g)" "j < length (nodes g)"
      "nodes g ! i = Some producer" "nodes g ! j = Some consumer"
      by (simp_all add: GetNode_def split: if_splits)
    with c s show "\<exists>e \<in> set (edges g). fst e = i \<and> fst (snd e) = j"
      unfolding edges_complete_def by blast
  qed
next
  assume a: "\<forall>i j producer consumer. GetNode g i = Some producer \<longrightarrow> GetNode g j = Some consumer \<longrightarrow>
        Name ` set (OutputDefs producer) \<inter> Name ` set (InputDefs consumer) \<noteq> {} \<longrightarrow>
        (\<exists>e \<in> set (edges g). fst e = i \<and> fst (snd e) = j)"
  show "edges_complete g"
    unfolding edges_complete_def
  proof (intro allI impI)
    fix i j producer consumer
    assume "i < length (nodes g)" "j < length (nodes g)"
      "nodes g ! i = Some producer" "nodes g ! j = Some consumer"
      and s: "Name ` set (OutputDefs producer) \<inter> Name ` set (InputDefs consumer) \<noteq> {}"
    then have "GetNode g i = Some producer" "GetNode g j = Some consumer"
      by (simp_all add: GetNode_def)
    with a s show "\<exists>e \<in> set (edges g). fst e = i \<and> fst (snd e) = j" by blast
  qed
qed

lemma topological_order_covers:
  assumes "topological_order g order" and "GetNode g i = Some n"
  shows "i \<in> set order"
  using assms by (auto simp: topological_order_def GetNode_def split: if_splits)

lemma node_wf_iff: "node_wf topo n \<longleftrightarrow> (\<forall>sg \<in> set (subgraphs n). graph_wf topo sg)"
  by (cases n) simp

lemma graph_wf_iff:
  "graph_wf topo g \<longleftrightarrow>
     topological_order g (topo g) \<and> edges_complete g \<and>
     (\<forall>i n. GetNode g i = Some n \<longrightarrow> node_wf topo n)"
proof (cases g)
  case (Graph ns inits es gi go)
  have "(\<forall>x \<in> set ns. case x of None \<Rightarrow> True | Some node \<Rightarrow> node_wf topo node) \<longleftrightarrow>
      (\<forall>i < length ns. \<forall>n. ns ! i = Some n \<longrightarrow> node_wf topo n)"
    by (auto simp: all_set_conv_all_nth split: option.splits)
  then show ?thesis
    unfolding Graph by (auto simp: GetNode_def)
qed

lemma sources_first_filter:
  "sources_first es seen rest \<Longrightarrow> sources_first (filter P es) seen rest"
  by (induction es seen rest rule: sources_first.induct) auto

lemma settled_not_eligible:
  assumes "settled cf g seen rest i n"
  shows "\<not> eligible cf g i n"
  using assms unfolding settled_def eligible_def AllNodeInputsAreConstant_def
  by blast

lemma settled_transfer:
  assumes "settled cf g seen rest i n"
    and "set seen \<subseteq> set seen'"
    and "graph_inputs g' = graph_inputs g" and "graph_outputs g' = graph_outputs g"
    and "\<forall>e \<in> set (edges g). fst e \<in> set seen \<longrightarrow> e \<in> set (edges g')"
    and "\<forall>k \<in> set rest'. \<forall>nk. GetNode g' k = Some nk \<longrightarrow>
           k \<in> set rest \<and> (\<exists>nk0. GetNode g k = Some nk0 \<and> OutputDefs nk0 = OutputDefs nk)"
    and "\<forall>x. initializers g x = None \<longrightarrow>
           (\<forall>k \<in> set rest. \<forall>nk. GetNode g k = Some nk \<longrightarrow> x \<notin> Name ` set (OutputDefs nk)) \<longrightarrow>
           initializers g' x = None"
  shows "settled cf g' seen' rest' i n"
proof -
  from assms(1) have q: "node_quiescent cf n" by (simp add: settled_def)
  from assms(1) consider
      (static) "\<not> IsSupportedProvider n (compatible_execution_providers cf)
        \<or> OpType n \<in> excluded_op_types cf \<or> ContainsSubgraph n"
    | (out) "IsNodeOutputsInGraphOutputs g n"
    | (edge) e where "e \<in> set (edges g)" "fst (snd e) = i" "fst e \<in> set seen"
    | (inp) d where "d \<in> set (InputDefs n)" "Name d \<in> set (graph_inputs g)"
    | (init) d where "d \<in> set (InputDefs n)" "initializers g (Name d) = None"
        "\<forall>k \<in> set rest. \<forall>nk. GetNode g k = Some nk \<longrightarrow> Name d \<notin> Name ` set (OutputDefs nk)"
    unfolding settled_def by blast
  then show ?thesis
  proof cases
    case static
    with q show ?thesis unfolding settled_def by blast
  next
    case out
    then have "IsNodeOutputsInGraphOutputs g' n"
      by (simp add: IsNodeOutputsInGraphOutputs_def assms(4))
    with q show ?thesis unfolding settled_def by blast
  next
    case edge
    with assms(2,5) have "e \<in> set (edges g')" "fst e \<in> set seen'" by auto
    with edge(2) q show ?thesis unfolding settled_def by blast
  next
    case inp
    then have "\<exists>d \<in> set (InputDefs n). Name d \<in> set (graph_inputs g')"
      using assms(3) by auto
    with q show ?thesis unfolding settled_def by blast
  next
    case init
    from assms(7) init(2,3) have 1: "initializers g' (Name d) = None" by blast
    have 2: "\<forall>k \<in> set rest'. \<forall>nk. GetNode g' k = Some nk \<longrightarrow>
        Name d \<notin> Name ` set (OutputDefs nk)"
    proof (intro ballI allI impI)
      fix k nk
      assume "k \<in> set rest'" and "GetNode g' k = Some nk"
      with assms(6) obtain nk0 where "k \<in> set rest" "GetNode g k = Some nk0"
        "OutputDefs nk0 = OutputDefs nk" by blast
      with init(3) show "Name d \<notin> Name ` set (OutputDefs nk)" by metis
    qed
    from init(1) 1 2 q show ?thesis unfolding settled_def by blast
  qed
qed

lemma not_eligible_settled:
  assumes "\<not> eligible cf g j n" and "node_quiescent cf n"
    and "\<forall>e \<in> set (edges g). fst (snd e) = j \<longrightarrow> fst e \<in> set seen"
    and "\<forall>k \<in> set rest. \<forall>nk. GetNode g k = Some nk \<longrightarrow>
           Name ` set (OutputDefs nk) \<inter> Name ` set (InputDefs n) = {}"
  shows "settled cf g (j # seen) rest j n"
proof -
  from assms(1) consider
      (static) "\<not> IsSupportedProvider n (compatible_execution_providers cf)
        \<or> OpType n \<in> excluded_op_types cf \<or> ContainsSubgraph n
        \<or> IsNodeOutputsInGraphOutputs g n"
    | (edge) e where "e \<in> set (edges g)" "fst (snd e) = j"
    | (inp) d where "d \<in> set (InputDefs n)" "Name d \<in> set (graph_inputs g)"
    | (init) d where "d \<in> set (InputDefs n)" "initializers g (Name d) = None"
    unfolding eligible_def AllNodeInputsAreConstant_def by blast
  then show ?thesis
  proof cases
    case static
    with assms(2) show ?thesis unfolding settled_def by blast
  next
    case edge
    with assms(3) have "fst e \<in> set (j # seen)" by simp
    with edge assms(2) show ?thesis unfolding settled_def by blast
  next
    case inp
    with assms(2) show ?thesis unfolding settled_def by blast
  next
    case init
    have "\<forall>k \<in> set rest. \<forall>nk. GetNode g k = Some nk \<longrightarrow> Name d \<notin> Name ` set (OutputDefs nk)"
      using assms(4) init(1) by blast
    with init assms(2) show ?thesis unfolding settled_def by blast
  qed
qed

text \<open>One round of the loop keeps the invariant.\<close>

lemma loop_inv_absent:
  assumes "loop_inv cf topo seen (j # rest) g" and "GetNode g j = None"
  shows "loop_inv cf topo (j # seen) rest g"
proof -
  note inv = assms(1) [unfolded loop_inv_def]
  have st: "settled cf g (j # seen) rest i n"
    if "i \<in> set (j # seen)" and n: "GetNode g i = Some n" for i n
  proof -
    from that assms(2) have "i \<in> set seen" by auto
    with inv n have "settled cf g seen (j # rest) i n" by blast
    then show ?thesis
      by (rule settled_transfer) auto
  qed
  from inv have "distinct ((j # seen) @ rest)" by auto
  moreover from inv have "\<forall>i n. GetNode g i = Some n \<longrightarrow> i \<in> set (j # seen) \<union> set rest"
    by auto
  moreover from inv have "sources_first (edges g) (j # seen) rest" by simp
  moreover from inv have "edges_complete g" by simp
  moreover from inv have "\<forall>i \<in> set rest. \<forall>n. GetNode g i = Some n \<longrightarrow> node_wf topo n"
    by simp
  ultimately show ?thesis
    unfolding loop_inv_def using st by blast
qed

lemma loop_inv_skipped:
  assumes "loop_inv cf topo seen (j # rest) g" and "GetNode g j = Some nj"
    and "OutputDefs nj' = OutputDefs nj" and "InputDefs nj' = InputDefs nj"
    and "node_quiescent cf nj'" and "\<not> eligible cf (SetNode g j nj') j nj'"
  shows "loop_inv cf topo (j # seen) rest (SetNode g j nj')"
proof -
  let ?g1 = "SetNode g j nj'"
  note inv = assms(1) [unfolded loop_inv_def]
  have lt: "j < length (nodes g)" using assms(2) by (rule GetNode_less)
  have get: "GetNode ?g1 k = (if k = j then Some nj' else GetNode g k)" for k
    using lt by (simp add: GetNode_SetNode)
  from inv have dist: "distinct (seen @ j # rest)" by simp
  then have jr: "j \<notin> set rest" and js: "j \<notin> set seen" by auto
  from inv have sf: "\<forall>e \<in> set (edges g). fst (snd e) = j \<longrightarrow> fst e \<in> set seen"
    and sf': "sources_first (edges g) (j # seen) rest" by simp_all
  from inv have ec: "edges_complete g" by simp
  have same_defs: "\<exists>n0. GetNode g k = Some n0 \<and> OutputDefs n0 = OutputDefs n
      \<and> InputDefs n0 = InputDefs n"
    if "GetNode ?g1 k = Some n" for k n
    using that assms(2,3,4) by (cases "k = j") (simp_all add: get)
  have ec1: "edges_complete ?g1"
    unfolding edges_complete_iff
  proof (intro allI impI)
    fix i k producer consumer
    assume p: "GetNode ?g1 i = Some producer" and c: "GetNode ?g1 k = Some consumer"
      and s: "Name ` set (OutputDefs producer) \<inter> Name ` set (InputDefs consumer) \<noteq> {}"
    from same_defs [OF p] same_defs [OF c] s ec [unfolded edges_complete_iff]
    have "\<exists>e \<in> set (edges g). fst e = i \<and> fst (snd e) = k" by metis
    then show "\<exists>e \<in> set (edges ?g1). fst e = i \<and> fst (snd e) = k" by simp
  qed
  have no_producer: "Name ` set (OutputDefs nk) \<inter> Name ` set (InputDefs nj') = {}"
    if k: "k \<in> set rest" and nk: "GetNode ?g1 k = Some nk" for k nk
  proof (rule ccontr)
    assume ne: "Name ` set (OutputDefs nk) \<inter> Name ` set (InputDefs nj') \<noteq> {}"
    from k jr have kj: "k \<noteq> j" by auto
    with nk have "GetNode g k = Some nk" by (simp add: get)
    with ec [unfolded edges_complete_iff] assms(2) ne assms(4)
    obtain e where "e \<in> set (edges g)" "fst e = k" "fst (snd e) = j" by metis
    with sf have "k \<in> set seen" by blast
    with k dist show False by auto
  qed
  have st: "settled cf ?g1 (j # seen) rest i n"
    if i: "i \<in> set (j # seen)" and n: "GetNode ?g1 i = Some n" for i n
  proof (cases "i = j")
    case True
    with n have "n = nj'" by (simp add: get)
    moreover have "settled cf ?g1 (j # seen) rest j nj'"
      using assms(6,5)
    proof (rule not_eligible_settled)
      show "\<forall>e \<in> set (edges ?g1). fst (snd e) = j \<longrightarrow> fst e \<in> set seen"
        using sf by simp
      show "\<forall>k \<in> set rest. \<forall>nk. GetNode ?g1 k = Some nk \<longrightarrow>
           Name ` set (OutputDefs nk) \<inter> Name ` set (InputDefs nj') = {}"
        using no_producer by blast
    qed
    ultimately show ?thesis using True by simp
  next
    case False
    with i have "i \<in> set seen" by simp
    moreover from False n have "GetNode g i = Some n" by (simp add: get)
    ultimately have "settled cf g seen (j # rest) i n" using inv by blast
    then show ?thesis
    proof (rule settled_transfer)
      show "\<forall>k \<in> set rest. \<forall>nk. GetNode ?g1 k = Some nk \<longrightarrow>
           k \<in> set (j # rest) \<and> (\<exists>nk0. GetNode g k = Some nk0 \<and> OutputDefs nk0 = OutputDefs nk)"
        using same_defs by auto
    qed auto
  qed
  have "distinct ((j # seen) @ rest)" using dist by auto
  moreover have "\<forall>i n. GetNode ?g1 i = Some n \<longrightarrow> i \<in> set (j # seen) \<union> set rest"
  proof (intro allI impI)
    fix i n
    assume "GetNode ?g1 i = Some n"
    then have "i = j \<or> (\<exists>n0. GetNode g i = Some n0)" by (simp add: get split: if_splits)
    with inv show "i \<in> set (j # seen) \<union> set rest" by auto
  qed
  moreover have "sources_first (edges ?g1) (j # seen) rest" using sf' by simp
  moreover have "\<forall>i \<in> set rest. \<forall>n. GetNode ?g1 i = Some n \<longrightarrow> node_wf topo n"
  proof (intro ballI allI impI)
    fix i n
    assume i: "i \<in> set rest" and "GetNode ?g1 i = Some n"
    with jr have "GetNode g i = Some n" by (auto simp: get split: if_splits)
    with inv i show "node_wf topo n" by simp
  qed
  ultimately show ?thesis
    unfolding loop_inv_def using ec1 st by blast
qed

lemma loop_inv_folded:
  assumes "loop_inv cf topo seen (j # rest) g" and "GetNode g j = Some nj"
    and "fold_node ex g j nj m = Inr (g3, m3)"
  shows "loop_inv cf topo (j # seen) rest g3"
proof -
  note inv = assms(1) [unfolded loop_inv_def]
  note f = fold_node_Inr [OF assms(3)]
  have lt: "j < length (nodes g)" using assms(2) by (rule GetNode_less)
  have get: "GetNode g3 k = (if k = j then None else GetNode g k)" for k
    using GetNode_nodes_update [OF f(1), of k] lt by simp
  from inv have dist: "distinct (seen @ j # rest)" by simp
  then have jr: "j \<notin> set rest" and js: "j \<notin> set seen" by auto
  from inv have sf': "sources_first (edges g) (j # seen) rest" by simp
  from inv have ec: "edges_complete g" by simp
  have ec3: "edges_complete g3"
    unfolding edges_complete_iff
  proof (intro allI impI)
    fix i k producer consumer
    assume p: "GetNode g3 i = Some producer" and c: "GetNode g3 k = Some consumer"
      and s: "Name ` set (OutputDefs producer) \<inter> Name ` set (InputDefs consumer) \<noteq> {}"
    from p have ij: "i \<noteq> j" and p0: "GetNode g i = Some producer"
      by (simp_all add: get split: if_splits)
    from c have c0: "GetNode g k = Some consumer" by (simp add: get split: if_splits)
    from ec [unfolded edges_complete_iff] p0 c0 s
    obtain e where e: "e \<in> set (edges g)" "fst e = i" "fst (snd e) = k" by blast
    with ij have "e \<in> set (edges g3)" unfolding f(2) by simp
    with e show "\<exists>e \<in> set (edges g3). fst e = i \<and> fst (snd e) = k" by blast
  qed
  have st: "settled cf g3 (j # seen) rest i n"
    if i: "i \<in> set (j # seen)" and n: "GetNode g3 i = Some n" for i n
  proof -
    from n have ij: "i \<noteq> j" and n0: "GetNode g i = Some n"
      by (simp_all add: get split: if_splits)
    with i have "i \<in> set seen" by simp
    with n0 inv have "settled cf g seen (j # rest) i n" by blast
    then show ?thesis
    proof (rule settled_transfer)
      show "set seen \<subseteq> set (j # seen)" by auto
      show "graph_inputs g3 = graph_inputs g" "graph_outputs g3 = graph_outputs g"
        by (rule f)+
      show "\<forall>e \<in> set (edges g). fst e \<in> set seen \<longrightarrow> e \<in> set (edges g3)"
        unfolding f(2) using js by auto
      show "\<forall>k \<in> set rest. \<forall>nk. GetNode g3 k = Some nk \<longrightarrow>
           k \<in> set (j # rest) \<and> (\<exists>nk0. GetNode g k = Some nk0 \<and> OutputDefs nk0 = OutputDefs nk)"
        by (auto simp: get split: if_splits)
      show "\<forall>x. initializers g x = None \<longrightarrow>
           (\<forall>k \<in> set (j # rest). \<forall>nk. GetNode g k = Some nk \<longrightarrow> x \<notin> Name ` set (OutputDefs nk)) \<longrightarrow>
           initializers g3 x = None"
      proof (intro allI impI)
        fix x
        assume x: "initializers g x = None"
          and "\<forall>k \<in> set (j # rest). \<forall>nk. GetNode g k = Some nk \<longrightarrow> x \<notin> Name ` set (OutputDefs nk)"
        with assms(2) have "x \<notin> Name ` set (OutputDefs nj)" by simp
        from f(6) [OF this] x show "initializers g3 x = None" by simp
      qed
    qed
  qed
  have "distinct ((j # seen) @ rest)" using dist by auto
  moreover have "\<forall>i n. GetNode g3 i = Some n \<longrightarrow> i \<in> set (j # seen) \<union> set rest"
  proof (intro allI impI)
    fix i n
    assume "GetNode g3 i = Some n"
    then have "GetNode g i = Some n" by (simp add: get split: if_splits)
    with inv show "i \<in> set (j # seen) \<union> set rest" by auto
  qed
  moreover have "sources_first (edges g3) (j # seen) rest"
    unfolding f(2) using sf' by (rule sources_first_filter)
  moreover have "\<forall>i \<in> set rest. \<forall>n. GetNode g3 i = Some n \<longrightarrow> node_wf topo n"
  proof (intro ballI allI impI)
    fix i n
    assume i: "i \<in> set rest" and "GetNode g3 i = Some n"
    then have "GetNode g i = Some n" by (simp add: get split: if_splits)
    with inv i show "node_wf topo n" by simp
  qed
  ultimately show ?thesis
    unfolding loop_inv_def using ec3 st by blast
qed

lemma loop_inv_final:
  assumes "loop_inv cf topo seen [] g"
  shows "graph_quiescent cf g"
  unfolding graph_quiescent_iff
proof (intro allI impI)
  fix i n
  assume n: "GetNode g i = Some n"
  with assms have "settled cf g seen [] i n"
    unfolding loop_inv_def by auto
  then have "\<not> eligible cf g i n" and "node_quiescent cf n"
    by (rule settled_not_eligible, simp add: settled_def)
  then show "\<not> eligible cf g i n \<and> node_quiescent cf n" by simp
qed

text \<open>A successful pass over a resolved graph leaves nothing to fold.\<close>

lemma Recurse_subgraphs_quiescent:
  assumes "\<forall>sg m l sg' m'. graph_wf topo sg \<longrightarrow> ap sg m l = Some (Inr (sg', m')) \<longrightarrow>
      graph_quiescent cf sg'"
  shows "\<forall>sg \<in> set gs. graph_wf topo sg \<Longrightarrow>
    Recurse_subgraphs ap gs m l = Some (Inr (gs', m')) \<Longrightarrow>
    \<forall>sg \<in> set gs'. graph_quiescent cf sg"
proof (induction gs arbitrary: m gs' m')
  case Nil
  then show ?case by simp
next
  case (Cons sg gs)
  from Cons.prems(2) obtain q where q: "ap sg m l = Some q"
    by (cases "ap sg m l") simp_all
  show ?case
  proof (cases q)
    case (Inl p)
    obtain e sg1 m1 where "p = (e, sg1, m1)" by (cases p)
    with Cons.prems(2) q Inl show ?thesis by simp
  next
    case (Inr p) note qI = this
    obtain sg1 m1 where p: "p = (sg1, m1)" by (cases p)
    from Cons.prems(2) q qI p obtain q2 where q2: "Recurse_subgraphs ap gs m1 l = Some q2"
      by (cases "Recurse_subgraphs ap gs m1 l") simp_all
    show ?thesis
    proof (cases q2)
      case (Inl u)
      obtain e gs1 m2 where "u = (e, gs1, m2)" by (cases u)
      with Cons.prems(2) q qI p q2 Inl show ?thesis by simp
    next
      case (Inr u)
      obtain gs1 m2 where u: "u = (gs1, m2)" by (cases u)
      from Cons.prems(2) q qI p q2 Inr u have gs': "gs' = sg1 # gs1" by simp
      from Cons.prems(1) have "graph_wf topo sg" by simp
      with assms q qI p have "graph_quiescent cf sg1" by blast
      moreover from Cons.IH [OF _ q2 [unfolded Inr u]] Cons.prems(1)
      have "\<forall>sg \<in> set gs1. graph_quiescent cf sg" by simp
      ultimately show ?thesis unfolding gs' by simp
    qed
  qed
qed

lemma Recurse_quiescent:
  assumes "\<forall>sg m l sg' m'. graph_wf topo sg \<longrightarrow> ap sg m l = Some (Inr (sg', m')) \<longrightarrow>
      graph_quiescent cf sg'"
    and "node_wf topo n" and "Recurse ap n m l = Some (Inr (n', m'))"
  shows "node_quiescent cf n'"
proof -
  from assms(3) obtain gs' where
    r: "Recurse_subgraphs ap (subgraphs n) m (l + 1) = Some (Inr (gs', m'))"
    and n': "n' = with_subgraphs n gs'"
    by (auto simp: Recurse_def split: option.splits sum.splits)
  from assms(2) have "\<forall>sg \<in> set (subgraphs n). graph_wf topo sg"
    by (simp add: node_wf_iff)
  from Recurse_subgraphs_quiescent [OF assms(1) this r]
  show ?thesis by (simp add: n' node_quiescent_iff)
qed

lemma ApplyImpl_loop_settles:
  assumes ap: "\<forall>sg m l sg' m'. graph_wf topo sg \<longrightarrow> ap sg m l = Some (Inr (sg', m')) \<longrightarrow>
      graph_quiescent cf sg'"
  shows "loop_inv cf topo seen order g \<Longrightarrow>
    ApplyImpl_loop ap cf ex order g m l = Some (Inr (g1, m1)) \<Longrightarrow> graph_quiescent cf g1"
proof (induction order arbitrary: seen g m)
  case Nil
  then show ?case using loop_inv_final by simp
next
  case (Cons j order)
  from Cons.prems(2) show ?case
  proof (cases rule: ApplyImpl_loop_Cons_cases)
    case absent
    from loop_inv_absent [OF Cons.prems(1) absent(1)] absent(2) show ?thesis
      by (rule Cons.IH)
  next
    case (raised_below nj e nj' m')
    then show ?thesis by simp
  next
    case (skipped nj nj' m')
    from Cons.prems(1) skipped(1) have "node_wf topo nj"
      unfolding loop_inv_def by simp
    from Recurse_quiescent [OF ap this skipped(2)] have q: "node_quiescent cf nj'" .
    from loop_inv_skipped [OF Cons.prems(1) skipped(1) Recurse_Inr_fields(4,3) [OF skipped(2)]
        q skipped(3)] skipped(4)
    show ?thesis by (rule Cons.IH)
  next
    case (raised nj e g2 m2)
    then show ?thesis by simp
  next
    case (folded nj g3 m3)
    from loop_inv_folded [OF Cons.prems(1) folded(1,3)] folded(4) show ?thesis
      by (rule Cons.IH)
  qed
qed

lemma loop_inv_initial:
  assumes "graph_wf topo g"
  shows "loop_inv cf topo [] (topo g) g"
proof -
  from assms have t: "topological_order g (topo g)" and e: "edges_complete g"
    and n: "\<forall>i n. GetNode g i = Some n \<longrightarrow> node_wf topo n"
    by (simp_all add: graph_wf_iff)
  from t have "distinct (topo g)" "sources_first (edges g) [] (topo g)"
    by (simp_all add: topological_order_def)
  with topological_order_covers [OF t] e n show ?thesis
    unfolding loop_inv_def by auto
qed

lemma ApplyImpl_fuel_settles:
  "graph_wf (GetNodesInTopologicalOrder ex) g \<Longrightarrow>
   ApplyImpl_fuel k cf ex g m l = Some (Inr (g1, m1)) \<Longrightarrow> graph_quiescent cf g1"
proof (induction k arbitrary: g m l g1 m1)
  case 0
  then show ?case by simp
next
  case (Suc k)
  have ap: "\<forall>sg m l sg' m'. graph_wf (GetNodesInTopologicalOrder ex) sg \<longrightarrow>
      ApplyImpl_fuel k cf ex sg m l = Some (Inr (sg', m')) \<longrightarrow> graph_quiescent cf sg'"
    using Suc.IH by blast
  from Suc.prems(2) have
    "ApplyImpl_loop (ApplyImpl_fuel k cf ex) cf ex (GetNodesInTopologicalOrder ex g) g m l =
       Some (Inr (g1, m1))"
    by simp
  with ApplyImpl_loop_settles [OF ap loop_inv_initial [OF Suc.prems(1)]]
  show ?case by blast
qed
section \<open>C1: which nodes are folded\<close>

text \<open>
  C1 (as amended). \<open>visit_node\<close> is what the loop does with every node it finds, on
  the graph as the descent into the subgraphs of the node left it. The node is folded
  (the step returns normally with \<open>modified = true\<close>, the node is gone and every
  output name has an initializer) if and only if the five eligibility conditions hold
  and the fetched values pass both internal checks: their number is the number of
  declared outputs and each of them is a tensor. A node that fails a condition is
  skipped without an error, graph and flag unchanged. An eligible node whose fetches
  fail a check raises the error and stays in the graph.
\<close>

theorem folded_iff_eligible_and_checks_pass:
  assumes "GetNode graph i = Some node"
    and "snd (Compute ex node (GetAllInitializedTensors graph)) = fetches"
  shows "((\<exists>g'. visit_node cf ex graph i node modified = Inr (g', True) \<and> GetNode g' i = None
            \<and> (\<forall>out \<in> set (OutputDefs node). initializers g' (Name out) \<noteq> None))
          \<longleftrightarrow> (eligible cf graph i node \<and> length fetches = length (OutputDefs node)
                \<and> list_all IsTensor fetches))
       \<and> (\<not> eligible cf graph i node \<longrightarrow>
            visit_node cf ex graph i node modified = Inr (graph, modified))
       \<and> (eligible cf graph i node
            \<and> \<not> (length fetches = length (OutputDefs node) \<and> list_all IsTensor fetches) \<longrightarrow>
            (\<exists>e g'. visit_node cf ex graph i node modified = Inl (e, g', modified)
               \<and> GetNode g' i = Some node))"
proof -
  let ?ok = "length fetches = length (OutputDefs node) \<and> list_all IsTensor fetches"
  have skip: "visit_node cf ex graph i node modified = Inr (graph, modified)"
    if "\<not> eligible cf graph i node"
    using that by (simp add: visit_node_def)
  have fold: "\<exists>g'. visit_node cf ex graph i node modified = Inr (g', True) \<and> GetNode g' i = None
      \<and> (\<forall>out \<in> set (OutputDefs node). initializers g' (Name out) \<noteq> None)"
    if el: "eligible cf graph i node" and ok: ?ok
  proof -
    from fold_node_success [OF assms(2), of i modified] ok obtain g1 where
      f: "fold_node ex graph i node modified = Inr (RemoveNode (RemoveNodeOutputEdges g1 i) i, True)"
      and inn: "\<forall>x \<in> Name ` set (OutputDefs node). initializers g1 x \<noteq> None"
      by blast
    let ?g' = "RemoveNode (RemoveNodeOutputEdges g1 i) i"
    have "visit_node cf ex graph i node modified = Inr (?g', True)"
      using el f by (simp add: visit_node_def)
    moreover have "GetNode ?g' i = None" by (simp add: GetNode_RemoveNode)
    moreover have "\<forall>out \<in> set (OutputDefs node). initializers ?g' (Name out) \<noteq> None"
      using inn by simp
    ultimately show ?thesis by blast
  qed
  have raise: "\<exists>e g'. visit_node cf ex graph i node modified = Inl (e, g', modified)
      \<and> GetNode g' i = Some node"
    if el: "eligible cf graph i node" and nok: "\<not> ?ok"
  proof (cases "length fetches = length (OutputDefs node)")
    case False
    then have "visit_node cf ex graph i node modified = Inl (Enforce_fetches_size, graph, modified)"
      using el assms(2) fold_node_size_mismatch [of ex node graph i modified]
      by (simp add: visit_node_def)
    with assms(1) show ?thesis by blast
  next
    case True
    with nok have nt: "\<not> list_all IsTensor (map fst (zip fetches (OutputDefs node)))"
      by simp
    obtain r where r: "add_fetches graph (zip fetches (OutputDefs node)) = r" by simp
    show ?thesis
    proof (cases r)
      case (Inl p)
      obtain e g1 where p: "p = (e, g1)" by (cases p)
      from r Inl p have a: "add_fetches graph (zip fetches (OutputDefs node)) = Inl (e, g1)"
        by simp
      then have "nodes g1 = nodes graph" using add_fetches_frame by blast
      then have "GetNode g1 i = Some node"
        using assms(1) GetNode_nodes_eq [of g1 graph i] by simp
      moreover have "visit_node cf ex graph i node modified = Inl (e, g1, modified)"
        using el a True assms(2) by (simp add: visit_node_def fold_node_def)
      ultimately show ?thesis by blast
    next
      case (Inr g1)
      from add_fetches_tensors_only [of graph "zip fetches (OutputDefs node)" g1] r Inr nt
      show ?thesis by simp
    qed
  qed
  have rev_dir: "eligible cf graph i node \<and> ?ok"
    if "\<exists>g'. visit_node cf ex graph i node modified = Inr (g', True) \<and> GetNode g' i = None
      \<and> (\<forall>out \<in> set (OutputDefs node). initializers g' (Name out) \<noteq> None)"
  proof (rule ccontr)
    assume n: "\<not> (eligible cf graph i node \<and> ?ok)"
    from that obtain g' where v: "visit_node cf ex graph i node modified = Inr (g', True)"
      and gone: "GetNode g' i = None" by blast
    show False
    proof (cases "eligible cf graph i node")
      case False
      from skip [OF False] v have "g' = graph" by simp
      with gone assms(1) show False by simp
    next
      case True
      with n have "\<not> ?ok" by simp
      from raise [OF True this] v show False by auto
    qed
  qed
  from skip fold raise rev_dir show ?thesis by blast
qed



theorem folded_iff_eligible_and_checks_pass_witness:
  "GetNode add_relu_graph 0 = Some add_node \<and>
   eligible (ConstantFolding_new {cpu} {}) add_relu_graph 0 add_node \<and>
   visit_node (ConstantFolding_new {cpu} {}) ex_kernels add_relu_graph 0 add_node False =
     Inr (Graph [None, Some (relu_node ''sum'')]
            (two_consts(''sum'' \<mapsto> const_proto ''sum'' [0, 0, 160, 64])) [] [] [''out''], True) \<and>
   GetNode add_relu_graph 1 = Some (relu_node ''sum'') \<and>
   \<not> eligible (ConstantFolding_new {cpu} {}) add_relu_graph 1 (relu_node ''sum'') \<and>
   visit_node (ConstantFolding_new {cpu} {}) ex_kernels add_relu_graph 1 (relu_node ''sum'') False =
     Inr (add_relu_graph, False)"
proof -
  let ?cf = "ConstantFolding_new {cpu} {}"
  have g0: "GetNode add_relu_graph 0 = Some add_node"
    and g1: "GetNode add_relu_graph 1 = Some (relu_node ''sum'')"
    by (simp_all add: GetNode_def add_relu_graph_def)
  have f: "snd (Compute ex_kernels add_node (GetAllInitializedTensors add_relu_graph)) =
      [TensorValue (scalar [0, 0, 160, 64])]"
    by (simp add: ex_kernels_def add_node_def)
  have e0: "eligible ?cf add_relu_graph 0 add_node"
    and e1: "\<not> eligible ?cf add_relu_graph 1 (relu_node ''sum'')"
    by (simp_all add: model_defs fixture_defs)
  have v0: "visit_node ?cf ex_kernels add_relu_graph 0 add_node False =
     Inr (Graph [None, Some (relu_node ''sum'')]
            (two_consts(''sum'' \<mapsto> const_proto ''sum'' [0, 0, 160, 64])) [] [] [''out''], True)"
    by (simp add: model_defs fixture_defs)
  from folded_iff_eligible_and_checks_pass [OF g1 refl, where cf = ?cf and modified = False] e1
  have "visit_node ?cf ex_kernels add_relu_graph 1 (relu_node ''sum'') False =
     Inr (add_relu_graph, False)"
    by blast
  with g0 g1 e0 e1 v0 show ?thesis by blast
qed

theorem eligible_node_not_folded_counterexample:
  "GetNode (unary_graph ''ZipMap'') 0 = Some (Node ''ZipMap'' cpu [arg ''a''] [arg ''y''] []) \<and>
   eligible (ConstantFolding_new {cpu} {}) (unary_graph ''ZipMap'') 0
     (Node ''ZipMap'' cpu [arg ''a''] [arg ''y''] []) \<and>
   visit_node (ConstantFolding_new {cpu} {}) ex_kernels (unary_graph ''ZipMap'') 0
     (Node ''ZipMap'' cpu [arg ''a''] [arg ''y''] []) False =
     Inl (Enforce_IsTensor, unary_graph ''ZipMap'', False) \<and>
   ApplyImpl (ConstantFolding_new {cpu} {}) ex_kernels (unary_graph ''ZipMap'') False 0 =
     Some (Inl (Enforce_IsTensor, unary_graph ''ZipMap'', False))"
  by (simp add: model_defs fixture_defs upt_rec)
section \<open>C2: the rewrite of one node\<close>

text \<open>
  C2 (as amended). For the fetches of a node: when their number differs from the number
  of declared outputs, the error is raised with graph and flag untouched. When the value
  at position \<open>k\<close> is the first that is not a tensor, the error is raised after the
  initializers of the \<open>k\<close> outputs before it have been added: nodes, edges and flag
  are untouched, every other initializer is as before. Otherwise all steps complete:
  every output has an initializer, the output edges of the node are gone and so is the
  node.
\<close>

theorem rewrite_steps_of_a_folded_node:
  assumes "snd (Compute ex node (GetAllInitializedTensors graph)) = fetches"
  shows "(length fetches \<noteq> length (OutputDefs node) \<longrightarrow>
            fold_node ex graph i node modified = Inl (Enforce_fetches_size, graph, modified))
       \<and> (length fetches = length (OutputDefs node) \<and> k < length fetches
            \<and> list_all IsTensor (take k fetches) \<and> \<not> IsTensor (fetches ! k) \<longrightarrow>
            (\<exists>g'. fold_node ex graph i node modified = Inl (Enforce_IsTensor, g', modified)
               \<and> nodes g' = nodes graph \<and> edges g' = edges graph
               \<and> (\<forall>x. x \<notin> Name ` set (take k (OutputDefs node)) \<longrightarrow>
                     initializers g' x = initializers graph x)
               \<and> (\<forall>out \<in> set (take k (OutputDefs node)). initializers g' (Name out) \<noteq> None)))
       \<and> (length fetches = length (OutputDefs node) \<and> list_all IsTensor fetches \<longrightarrow>
            (\<exists>g'. fold_node ex graph i node modified = Inr (g', True)
               \<and> (\<forall>out \<in> set (OutputDefs node). initializers g' (Name out) \<noteq> None)
               \<and> (\<forall>x. x \<notin> Name ` set (OutputDefs node) \<longrightarrow>
                     initializers g' x = initializers graph x)
               \<and> edges g' = filter (\<lambda>e. fst e \<noteq> i) (edges graph)
               \<and> nodes g' = (nodes graph)[i := None]))"
proof (intro conjI impI)
  assume "length fetches \<noteq> length (OutputDefs node)"
  then show "fold_node ex graph i node modified = Inl (Enforce_fetches_size, graph, modified)"
    using assms fold_node_size_mismatch [of ex node graph i modified] by simp
next
  assume a: "length fetches = length (OutputDefs node) \<and> k < length fetches
       \<and> list_all IsTensor (take k fetches) \<and> \<not> IsTensor (fetches ! k)"
  from fold_node_not_tensor [OF assms, of k i modified] a
  show "\<exists>g'. fold_node ex graph i node modified = Inl (Enforce_IsTensor, g', modified)
               \<and> nodes g' = nodes graph \<and> edges g' = edges graph
               \<and> (\<forall>x. x \<notin> Name ` set (take k (OutputDefs node)) \<longrightarrow>
                     initializers g' x = initializers graph x)
               \<and> (\<forall>out \<in> set (take k (OutputDefs node)). initializers g' (Name out) \<noteq> None)"
    by (elim conjE) blast
next
  assume a: "length fetches = length (OutputDefs node) \<and> list_all IsTensor fetches"
  from fold_node_success [OF assms, of i modified] a obtain g1 where
    f: "fold_node ex graph i node modified = Inr (RemoveNode (RemoveNodeOutputEdges g1 i) i, True)"
    and fr: "nodes g1 = nodes graph" "edges g1 = edges graph"
    and out: "\<forall>x. x \<notin> Name ` set (OutputDefs node) \<longrightarrow> initializers g1 x = initializers graph x"
    and inn: "\<forall>x \<in> Name ` set (OutputDefs node). initializers g1 x \<noteq> None"
    by blast
  let ?g' = "RemoveNode (RemoveNodeOutputEdges g1 i) i"
  have "\<forall>out \<in> set (OutputDefs node). initializers ?g' (Name out) \<noteq> None"
    using inn by simp
  moreover have "\<forall>x. x \<notin> Name ` set (OutputDefs node) \<longrightarrow> initializers ?g' x = initializers graph x"
    using out by simp
  moreover have "edges ?g' = filter (\<lambda>e. fst e \<noteq> i) (edges graph)"
    and "nodes ?g' = (nodes graph)[i := None]"
    using fr by simp_all
  ultimately show "\<exists>g'. fold_node ex graph i node modified = Inr (g', True)
               \<and> (\<forall>out \<in> set (OutputDefs node). initializers g' (Name out) \<noteq> None)
               \<and> (\<forall>x. x \<notin> Name ` set (OutputDefs node) \<longrightarrow>
                     initializers g' x = initializers graph x)
               \<and> edges g' = filter (\<lambda>e. fst e \<noteq> i) (edges graph)
               \<and> nodes g' = (nodes graph)[i := None]"
    using f by blast
qed




theorem rewrite_steps_of_a_folded_node_witness:
  "fold_node ex_kernels (unary_graph ''Mul'') 0 (Node ''Mul'' cpu [arg ''a''] [arg ''y''] []) False =
     Inl (Enforce_fetches_size, unary_graph ''Mul'', False) \<and>
   (\<exists>g'. fold_node ex_kernels dropout_graph 0 dropout_node False = Inl (Enforce_IsTensor, g', False)
      \<and> nodes g' = nodes dropout_graph \<and> edges g' = edges dropout_graph
      \<and> initializers g' ''mask'' = None \<and> initializers g' ''y'' \<noteq> None) \<and>
   (\<exists>g'. fold_node ex_kernels add_relu_graph 0 add_node False = Inr (g', True)
      \<and> initializers g' ''sum'' \<noteq> None \<and> edges g' = [] \<and>
      nodes g' = [None, Some (relu_node ''sum'')])"
proof -
  let ?mul = "Node ''Mul'' cpu [arg ''a''] [arg ''y''] []"
  let ?f2 = "[TensorValue (scalar [0, 0, 0, 64]), NonTensorValue]"
  let ?f3 = "[TensorValue (scalar [0, 0, 160, 64])]"
  have 1: "snd (Compute ex_kernels ?mul (GetAllInitializedTensors (unary_graph ''Mul''))) = []"
    by (simp add: ex_kernels_def)
  have 2: "snd (Compute ex_kernels dropout_node (GetAllInitializedTensors dropout_graph)) = ?f2"
    by (simp add: ex_kernels_def dropout_node_def)
  have 3: "snd (Compute ex_kernels add_node (GetAllInitializedTensors add_relu_graph)) = ?f3"
    by (simp add: ex_kernels_def add_node_def)
  have p1: "length ([] :: OrtValue list) \<noteq> length (OutputDefs ?mul)" by simp
  have p2: "length ?f2 = length (OutputDefs dropout_node) \<and> 1 < length ?f2
       \<and> list_all IsTensor (take 1 ?f2) \<and> \<not> IsTensor (?f2 ! 1)"
    by (simp add: dropout_node_def)
  have p3: "length ?f3 = length (OutputDefs add_node) \<and> list_all IsTensor ?f3"
    by (simp add: add_node_def)
  note t1 = rewrite_steps_of_a_folded_node [OF 1, where i = 0 and modified = False and k = 0]
  note t2 = rewrite_steps_of_a_folded_node [OF 2, where i = 0 and modified = False and k = 1]
  note t3 = rewrite_steps_of_a_folded_node [OF 3, where i = 0 and modified = False and k = 0]
  have a: "fold_node ex_kernels (unary_graph ''Mul'') 0 ?mul False =
     Inl (Enforce_fetches_size, unary_graph ''Mul'', False)"
    by (rule mp [OF conjunct1 [OF t1] p1])
  from mp [OF conjunct1 [OF conjunct2 [OF t2]] p2] obtain g2 where
    g2: "fold_node ex_kernels dropout_graph 0 dropout_node False = Inl (Enforce_IsTensor, g2, False)"
      "nodes g2 = nodes dropout_graph" "edges g2 = edges dropout_graph"
    and out2: "\<forall>x. x \<notin> Name ` set (take 1 (OutputDefs dropout_node)) \<longrightarrow>
                     initializers g2 x = initializers dropout_graph x"
    and in2: "\<forall>out \<in> set (take 1 (OutputDefs dropout_node)). initializers g2 (Name out) \<noteq> None"
    by blast
  have "initializers g2 ''mask'' = initializers dropout_graph ''mask''"
    using out2 by (simp add: dropout_node_def arg_def)
  then have m2: "initializers g2 ''mask'' = None"
    by (simp add: dropout_graph_def two_consts_def)
  have y2: "initializers g2 ''y'' \<noteq> None"
    using in2 by (simp add: dropout_node_def arg_def)
  from mp [OF conjunct2 [OF conjunct2 [OF t3]] p3] obtain g3 where
    g3: "fold_node ex_kernels add_relu_graph 0 add_node False = Inr (g3, True)"
    and in3: "\<forall>out \<in> set (OutputDefs add_node). initializers g3 (Name out) \<noteq> None"
    and e3: "edges g3 = filter (\<lambda>e. fst e \<noteq> 0) (edges add_relu_graph)"
    and n3: "nodes g3 = (nodes add_relu_graph)[0 := None]"
    by blast
  have s3: "initializers g3 ''sum'' \<noteq> None"
    using in3 by (simp add: add_node_def arg_def)
  have e3': "edges g3 = []" using e3 by (simp add: add_relu_graph_def)
  have n3': "nodes g3 = [None, Some (relu_node ''sum'')]"
    using n3 by (simp add: add_relu_graph_def)
  from a g2 m2 y2 g3 s3 e3' n3' show ?thesis by blast
qed

theorem rewrite_not_atomic_counterexample:
  "eligible (ConstantFolding_new {cpu} {}) dropout_graph 0 dropout_node \<and>
   initializers dropout_graph ''y'' = None \<and>
   ApplyImpl (ConstantFolding_new {cpu} {}) ex_kernels dropout_graph False 0 =
     Some (Inl (Enforce_IsTensor,
        Graph [Some dropout_node, Some (relu_node ''y'')]
          (two_consts(''y'' \<mapsto> const_proto ''y'' [0, 0, 0, 64])) [(0, 1, ''y'')] [] [''out''],
        False))"
  by (simp add: model_defs fixture_defs upt_rec)
section \<open>C3: the exclusion set\<close>

text \<open>
  C3 (as amended). Whatever the caller passes to the constructor, the exclusion set of
  the pass is the fixed set of the five random operators, and the eligibility check
  tests the operator type against exactly that set: there is no option through which
  a caller supplies another one.
\<close>

theorem exclusion_set_is_fixed:
  "excluded_op_types (ConstantFolding_new compatible_providers excluded_inits) =
     {''RandomUniform'', ''RandomNormal'', ''RandomUniformLike'', ''RandomNormalLike'',
      ''Multinomial''}
   \<and> eligible (ConstantFolding_new compatible_providers excluded_inits) graph i node =
      (IsSupportedProvider node compatible_providers
       \<and> OpType node \<notin> {''RandomUniform'', ''RandomNormal'', ''RandomUniformLike'',
            ''RandomNormalLike'', ''Multinomial''}
       \<and> \<not> ContainsSubgraph node
       \<and> \<not> IsNodeOutputsInGraphOutputs graph node
       \<and> AllNodeInputsAreConstant graph i node)"
  by (simp add: ConstantFolding_new_def eligible_def)

theorem exclusion_set_is_fixed_witness:
  "eligible (ConstantFolding_new {cpu} {''Add''}) add_relu_graph 0 add_node \<and>
   \<not> eligible (ConstantFolding_new {cpu} {''Add''}) (unary_graph ''RandomUniform'') 0
       (Node ''RandomUniform'' cpu [arg ''a''] [arg ''y''] [])"
  unfolding exclusion_set_is_fixed [THEN conjunct2]
  by (simp add: IsSupportedProvider_def ContainsSubgraph_def IsNodeOutputsInGraphOutputs_def
      AllNodeInputsAreConstant_def fixture_defs)

theorem caller_cannot_supply_exclusion_set_counterexample:
  "excluded_op_types (ConstantFolding_new {cpu} {''Add''}) \<noteq> {''Add''} \<and>
   ApplyImpl (ConstantFolding_new {cpu} {''Add''}) ex_kernels add_relu_graph False 0 =
     Some (Inr (Graph [None, Some (relu_node ''sum'')]
       (two_consts(''sum'' \<mapsto> const_proto ''sum'' [0, 0, 160, 64])) [] [] [''out''], True))"
proof -
  have "''RandomUniform'' \<in> excluded_op_types (ConstantFolding_new {cpu} {''Add''})"
    by (simp add: ConstantFolding_new_def)
  moreover have "''RandomUniform'' \<notin> {''Add''}" by simp
  ultimately have "excluded_op_types (ConstantFolding_new {cpu} {''Add''}) \<noteq> {''Add''}"
    by metis
  moreover have "ApplyImpl (ConstantFolding_new {cpu} {''Add''}) ex_kernels add_relu_graph False 0 =
     Some (Inr (Graph [None, Some (relu_node ''sum'')]
       (two_consts(''sum'' \<mapsto> const_proto ''sum'' [0, 0, 160, 64])) [] [] [''out''], True))"
    by (simp add: model_defs fixture_defs upt_rec)
  ultimately show ?thesis by blast
qed
section \<open>C4: the descent into subgraphs\<close>

text \<open>
  C4. For every node the loop finds, the first thing it does is \<open>Recurse\<close>, whatever
  the node is; an error from there ends the pass at once with that error, leaving the
  rest of the order unvisited; otherwise the eligibility check is made on the node and
  the graph as the descent left them. In particular a node that is excluded or owns
  subgraphs is never folded, yet the loop goes on with the subgraphs of the node
  replaced by what the pass made of them.
\<close>

theorem Recurse_precedes_eligibility_check:
  assumes "GetNode graph i = Some node"
  shows "ApplyImpl_loop ap cf ex (i # order) graph modified l =
     (case Recurse ap node modified l of
        None \<Rightarrow> None
      | Some (Inl (e, node', modified')) \<Rightarrow> Some (Inl (e, SetNode graph i node', modified'))
      | Some (Inr (node', modified')) \<Rightarrow>
          (if eligible cf (SetNode graph i node') i node'
           then (case fold_node ex (SetNode graph i node') i node' modified' of
                   Inl err \<Rightarrow> Some (Inl err)
                 | Inr (graph', modified'') \<Rightarrow> ApplyImpl_loop ap cf ex order graph' modified'' l)
           else ApplyImpl_loop ap cf ex order (SetNode graph i node') modified' l))
   \<and> (Recurse ap node modified l = Some (Inr (node', modified'))
        \<and> (OpType node \<in> excluded_op_types cf \<or> ContainsSubgraph node) \<longrightarrow>
      ApplyImpl_loop ap cf ex (i # order) graph modified l =
        ApplyImpl_loop ap cf ex order (SetNode graph i node') modified' l)"
proof (intro conjI impI)
  show eq: "ApplyImpl_loop ap cf ex (i # order) graph modified l =
     (case Recurse ap node modified l of
        None \<Rightarrow> None
      | Some (Inl (e, node', modified')) \<Rightarrow> Some (Inl (e, SetNode graph i node', modified'))
      | Some (Inr (node', modified')) \<Rightarrow>
          (if eligible cf (SetNode graph i node') i node'
           then (case fold_node ex (SetNode graph i node') i node' modified' of
                   Inl err \<Rightarrow> Some (Inl err)
                 | Inr (graph', modified'') \<Rightarrow> ApplyImpl_loop ap cf ex order graph' modified'' l)
           else ApplyImpl_loop ap cf ex order (SetNode graph i node') modified' l))"
    using assms by (simp add: visit_node_def split: option.splits sum.splits prod.splits)
  assume a: "Recurse ap node modified l = Some (Inr (node', modified'))
        \<and> (OpType node \<in> excluded_op_types cf \<or> ContainsSubgraph node)"
  then have r: "Recurse ap node modified l = Some (Inr (node', modified'))" by simp
  from Recurse_Inr_fields(1,5) [OF r] a
  have "OpType node' \<in> excluded_op_types cf \<or> ContainsSubgraph node'"
    by (auto simp: ContainsSubgraph_def)
  then have "\<not> eligible cf (SetNode graph i node') i node'"
    by (auto simp: eligible_def)
  with assms r show "ApplyImpl_loop ap cf ex (i # order) graph modified l =
        ApplyImpl_loop ap cf ex order (SetNode graph i node') modified' l"
    by (rule loop_step_skip)
qed

theorem Recurse_precedes_eligibility_check_witness:
  "GetNode (nested_graph ''RandomUniform'' add_relu_graph) 0 =
     Some (if_node ''RandomUniform'' add_relu_graph) \<and>
   ApplyImpl (ConstantFolding_new {cpu} {}) ex_kernels
       (nested_graph ''RandomUniform'' add_relu_graph) False 0 =
     Some (Inr (Graph
       [Some (if_node ''RandomUniform''
          (Graph [None, Some (relu_node ''sum'')]
             (two_consts(''sum'' \<mapsto> const_proto ''sum'' [0, 0, 160, 64])) [] [] [''out''])),
        None, Some (relu_node ''sum'')]
       (two_consts(''sum'' \<mapsto> const_proto ''sum'' [0, 0, 160, 64])) [] [] [''r'', ''out''], True)) \<and>
   GetNode (nested_graph ''If'' dropout_graph) 0 = Some (if_node ''If'' dropout_graph) \<and>
   ApplyImpl (ConstantFolding_new {cpu} {}) ex_kernels (nested_graph ''If'' dropout_graph) False 0 =
     Some (Inl (Enforce_IsTensor,
       Graph
        [Some (if_node ''If''
           (Graph [Some dropout_node, Some (relu_node ''y'')]
              (two_consts(''y'' \<mapsto> const_proto ''y'' [0, 0, 0, 64])) [(0, 1, ''y'')] [] [''out''])),
         Some add_node, Some (relu_node ''sum'')]
        two_consts [(1, 2, ''sum'')] [] [''r'', ''out''], False))"
proof -
  let ?cf = "ConstantFolding_new {cpu} {}"
  let ?g1 = "nested_graph ''RandomUniform'' add_relu_graph"
  let ?g2 = "nested_graph ''If'' dropout_graph"
  have n1: "GetNode ?g1 0 = Some (if_node ''RandomUniform'' add_relu_graph)"
    and n2: "GetNode ?g2 0 = Some (if_node ''If'' dropout_graph)"
    by (simp_all add: GetNode_def nested_graph_def)
  have d: "graph_depth ?g1 = Suc (Suc 0)" "graph_depth ?g2 = Suc (Suc 0)"
    by (simp_all add: fixture_defs)
  have o: "GetNodesInTopologicalOrder ex_kernels ?g1 = 0 # [1, 2]"
    "GetNodesInTopologicalOrder ex_kernels ?g2 = 0 # [1, 2]"
    by (simp_all add: ex_kernels_def nested_graph_def upt_rec)
  note t1 = Recurse_precedes_eligibility_check [OF n1, THEN conjunct1,
      of "ApplyImpl_fuel (Suc 0) ?cf ex_kernels" ?cf ex_kernels "[1, 2]" False 0]
  note t2 = Recurse_precedes_eligibility_check [OF n2, THEN conjunct1,
      of "ApplyImpl_fuel (Suc 0) ?cf ex_kernels" ?cf ex_kernels "[1, 2]" False 0]
  have a: "ApplyImpl ?cf ex_kernels ?g1 False 0 =
     Some (Inr (Graph
       [Some (if_node ''RandomUniform''
          (Graph [None, Some (relu_node ''sum'')]
             (two_consts(''sum'' \<mapsto> const_proto ''sum'' [0, 0, 160, 64])) [] [] [''out''])),
        None, Some (relu_node ''sum'')]
       (two_consts(''sum'' \<mapsto> const_proto ''sum'' [0, 0, 160, 64])) [] [] [''r'', ''out''], True))"
    unfolding ApplyImpl_def d ApplyImpl_fuel.simps o t1
    by (simp add: model_defs fixture_defs upt_rec)
  have b: "ApplyImpl ?cf ex_kernels ?g2 False 0 =
     Some (Inl (Enforce_IsTensor,
       Graph
        [Some (if_node ''If''
           (Graph [Some dropout_node, Some (relu_node ''y'')]
              (two_consts(''y'' \<mapsto> const_proto ''y'' [0, 0, 0, 64])) [(0, 1, ''y'')] [] [''out''])),
         Some add_node, Some (relu_node ''sum'')]
        two_consts [(1, 2, ''sum'')] [] [''r'', ''out''], False))"
    unfolding ApplyImpl_def d ApplyImpl_fuel.simps o t2
    by (simp add: model_defs fixture_defs upt_rec)
  from n1 n2 a b show ?thesis by blast
qed
section \<open>C5: the materialized initializer\<close>

lemma prod_list_nonneg:
  fixes ds :: "int list"
  shows "list_all (\<lambda>d. 0 \<le> d) ds \<Longrightarrow> 0 \<le> prod_list ds"
  by (induction ds) auto

lemma nat_mod_size_t:
  fixes n :: nat
  assumes "n < 2 ^ 64"
  shows "nat (int n mod 2 ^ 64) = n"
proof -
  have "int n < 2 ^ 64" using assms by (simp add: of_nat_less_numeral_power_cancel_iff)
  then have "int n mod 2 ^ 64 = int n" by simp
  then show ?thesis by simp
qed

lemma data_size_wf:
  assumes "tensor_wf t"
  shows "data_size t = Size (DataType t) * nat (prod_list (GetDims t))"
proof -
  let ?p = "prod_list (GetDims t)"
  from assms have p: "0 \<le> ?p"
    by (simp add: tensor_wf_def prod_list_nonneg)
  from assms have bound: "Size (DataType t) * nat ?p < 2 ^ 64"
    by (simp add: tensor_wf_def)
  have eq: "int (Size (DataType t)) * ?p = int (Size (DataType t) * nat ?p)"
    using p by simp
  show ?thesis
    unfolding data_size_def Shape_Size_def eq by (rule nat_mod_size_t [OF bound])
qed

text \<open>
  C5. For a computed tensor (one that satisfies the tensor invariant) and the output
  definition it belongs to, the materialized initializer has the name of the output
  edge, the element type declared on the output edge (the element type of the tensor
  itself is not consulted), the dimensions of the computed tensor in order, and as
  payload the first \<open>element size \<times> product of the dimensions\<close> bytes of the buffer
  of the tensor; the payload has exactly that length.
\<close>

theorem BuildTensorProtoForInitializer_record:
  assumes "tensor_wf t"
  shows "BuildTensorProtoForInitializer (TensorValue t) constant_node_arg =
           Inr \<lparr> name = Name constant_node_arg,
                 dims = GetDims t,
                 data_type = elem_type constant_node_arg,
                 raw_data = take (Size (DataType t) * nat (prod_list (GetDims t))) (DataRaw t) \<rparr>
         \<and> length (take (Size (DataType t) * nat (prod_list (GetDims t))) (DataRaw t)) =
             Size (DataType t) * nat (prod_list (GetDims t))"
proof -
  from assms have "Size (DataType t) * nat (prod_list (GetDims t)) \<le> length (DataRaw t)"
    by (simp add: tensor_wf_def)
  then show ?thesis
    by (simp add: BuildTensorProtoForInitializer_def data_size_wf [OF assms])
qed

theorem BuildTensorProtoForInitializer_record_witness:
  "tensor_wf \<lparr> GetDims = [2, 1], DataType = \<lparr> type_id = 6, Size = 4 \<rparr>, DataRaw = [1, 2, 3, 4, 5, 6, 7, 8] \<rparr> \<and>
   BuildTensorProtoForInitializer
       (TensorValue \<lparr> GetDims = [2, 1], DataType = \<lparr> type_id = 6, Size = 4 \<rparr>, DataRaw = [1, 2, 3, 4, 5, 6, 7, 8] \<rparr>)
       \<lparr> Name = ''sum'', elem_type = 1 \<rparr> =
     Inr \<lparr> name = ''sum'', dims = [2, 1], data_type = 1,
           raw_data = [1, 2, 3, 4, 5, 6, 7, 8] \<rparr>"
proof -
  have wf: "tensor_wf \<lparr> GetDims = [2, 1], DataType = \<lparr> type_id = 6, Size = 4 \<rparr>, DataRaw = [1, 2, 3, 4, 5, 6, 7, 8] \<rparr>"
    by (simp add: tensor_wf_def)
  show ?thesis
    using wf BuildTensorProtoForInitializer_record [OF wf, of "\<lparr> Name = ''sum'', elem_type = 1 \<rparr>"]
    by simp
qed
section \<open>C6: the number of fetched values\<close>

text \<open>
  C6. When the loop reaches an eligible node and the number of values fetched from the
  frame differs from the number of declared outputs, the pass fails with the internal
  error, and the graph and the flag are those before the node was visited: no
  initializer was added, the node was not removed. Hence whenever the pass returns
  normally, the two numbers were equal.
\<close>

theorem fetch_count_checked_before_mutation:
  assumes "GetNode graph i = Some node" and "eligible cf graph i node"
    and "snd (Compute ex node (GetAllInitializedTensors graph)) = fetches"
  shows "(length fetches \<noteq> length (OutputDefs node) \<longrightarrow>
           ApplyImpl_loop ap cf ex (i # order) graph modified l =
             Some (Inl (Enforce_fetches_size, graph, modified)))
       \<and> (\<forall>r. ApplyImpl_loop ap cf ex (i # order) graph modified l = Some (Inr r) \<longrightarrow>
             length fetches = length (OutputDefs node))"
proof -
  note step = loop_step_eligible [OF assms(1,2), of ap ex order modified l]
  have a: "ApplyImpl_loop ap cf ex (i # order) graph modified l =
      Some (Inl (Enforce_fetches_size, graph, modified))"
    if "length fetches \<noteq> length (OutputDefs node)"
    using that assms(3) fold_node_size_mismatch [of ex node graph i modified] step by simp
  have b: "length fetches = length (OutputDefs node)"
    if "ApplyImpl_loop ap cf ex (i # order) graph modified l = Some (Inr r)" for r
  proof (rule ccontr)
    assume "length fetches \<noteq> length (OutputDefs node)"
    from a [OF this] that show False by simp
  qed
  from a b show ?thesis by blast
qed

theorem fetch_count_checked_before_mutation_witness:
  "GetNode (unary_graph ''Mul'') 0 = Some (Node ''Mul'' cpu [arg ''a''] [arg ''y''] []) \<and>
   eligible (ConstantFolding_new {cpu} {}) (unary_graph ''Mul'') 0
     (Node ''Mul'' cpu [arg ''a''] [arg ''y''] []) \<and>
   snd (Compute ex_kernels (Node ''Mul'' cpu [arg ''a''] [arg ''y''] [])
     (GetAllInitializedTensors (unary_graph ''Mul''))) = [] \<and>
   ApplyImpl (ConstantFolding_new {cpu} {}) ex_kernels (unary_graph ''Mul'') False 0 =
     Some (Inl (Enforce_fetches_size, unary_graph ''Mul'', False))"
proof -
  let ?cf = "ConstantFolding_new {cpu} {}"
  let ?mul = "Node ''Mul'' cpu [arg ''a''] [arg ''y''] []"
  have g: "GetNode (unary_graph ''Mul'') 0 = Some ?mul"
    by (simp add: GetNode_def unary_graph_def)
  have e: "eligible ?cf (unary_graph ''Mul'') 0 ?mul"
    by (simp add: model_defs fixture_defs)
  have f: "snd (Compute ex_kernels ?mul (GetAllInitializedTensors (unary_graph ''Mul''))) = []"
    by (simp add: ex_kernels_def)
  have o: "GetNodesInTopologicalOrder ex_kernels (unary_graph ''Mul'') = [0, 1]"
    by (simp add: ex_kernels_def unary_graph_def upt_rec)
  have d: "graph_depth (unary_graph ''Mul'') = Suc 0"
    by (simp add: unary_graph_def relu_node_def)
  from fetch_count_checked_before_mutation [OF g e f, where order = "[1]" and modified = False
      and l = 0 and ap = "ApplyImpl_fuel 0 ?cf ex_kernels"]
  have "ApplyImpl ?cf ex_kernels (unary_graph ''Mul'') False 0 =
     Some (Inl (Enforce_fetches_size, unary_graph ''Mul'', False))"
    by (simp add: ApplyImpl_def d o)
  with g e f show ?thesis by blast
qed
section \<open>C7: running the pass again\<close>

text \<open>
  C7. For every resolved graph (the order of the graph viewer lists every node once and
  sources before destinations, and an input that a node of the graph produces arrives
  over an edge; the same in every nested subgraph): when the pass returns normally, a
  second run on the graph it left reports \<open>modified = false\<close> and leaves that graph
  as it is.
\<close>

theorem second_run_changes_nothing:
  assumes "graph_wf (GetNodesInTopologicalOrder ex) graph"
    and "ApplyImpl cf ex graph modified l = Some (Inr (graph1, modified1))"
  shows "ApplyImpl cf ex graph1 False l = Some (Inr (graph1, False))"
proof -
  from assms(2) have "ApplyImpl_fuel (graph_depth graph) cf ex graph modified l =
      Some (Inr (graph1, modified1))"
    by (simp add: ApplyImpl_def)
  with assms(1) have "graph_quiescent cf graph1"
    by (rule ApplyImpl_fuel_settles)
  then show ?thesis
    unfolding ApplyImpl_def by (rule ApplyImpl_fuel_noop) simp
qed

theorem second_run_changes_nothing_witness:
  "graph_wf (GetNodesInTopologicalOrder ex_kernels) (nested_graph ''If'' add_relu_graph) \<and>
   ApplyImpl (ConstantFolding_new {cpu} {}) ex_kernels (nested_graph ''If'' add_relu_graph) False 0 =
     Some (Inr (Graph
       [Some (if_node ''If''
          (Graph [None, Some (relu_node ''sum'')]
             (two_consts(''sum'' \<mapsto> const_proto ''sum'' [0, 0, 160, 64])) [] [] [''out''])),
        None, Some (relu_node ''sum'')]
       (two_consts(''sum'' \<mapsto> const_proto ''sum'' [0, 0, 160, 64])) [] [] [''r'', ''out''], True)) \<and>
   ApplyImpl (ConstantFolding_new {cpu} {}) ex_kernels
     (Graph
       [Some (if_node ''If''
          (Graph [None, Some (relu_node ''sum'')]
             (two_consts(''sum'' \<mapsto> const_proto ''sum'' [0, 0, 160, 64])) [] [] [''out''])),
        None, Some (relu_node ''sum'')]
       (two_consts(''sum'' \<mapsto> const_proto ''sum'' [0, 0, 160, 64])) [] [] [''r'', ''out'']) False 0 =
     Some (Inr (Graph
       [Some (if_node ''If''
          (Graph [None, Some (relu_node ''sum'')]
             (two_consts(''sum'' \<mapsto> const_proto ''sum'' [0, 0, 160, 64])) [] [] [''out''])),
        None, Some (relu_node ''sum'')]
       (two_consts(''sum'' \<mapsto> const_proto ''sum'' [0, 0, 160, 64])) [] [] [''r'', ''out''], False))"
proof -
  let ?cf = "ConstantFolding_new {cpu} {}"
  let ?g = "nested_graph ''If'' add_relu_graph"
  let ?g1 = "Graph
       [Some (if_node ''If''
          (Graph [None, Some (relu_node ''sum'')]
             (two_consts(''sum'' \<mapsto> const_proto ''sum'' [0, 0, 160, 64])) [] [] [''out''])),
        None, Some (relu_node ''sum'')]
       (two_consts(''sum'' \<mapsto> const_proto ''sum'' [0, 0, 160, 64])) [] [] [''r'', ''out'']"
  have wf: "graph_wf (GetNodesInTopologicalOrder ex_kernels) ?g"
    by (simp add: fixture_defs topological_order_def edges_complete_def upt_rec All_less_Suc)
  have run: "ApplyImpl ?cf ex_kernels ?g False 0 = Some (Inr (?g1, True))"
    by (simp add: model_defs fixture_defs upt_rec)
  from second_run_changes_nothing [OF wf run] wf run show ?thesis by blast
qed

section \<open>C8: excluded operators\<close>

text \<open>
  C8. For every node whose operator type is in the exclusion set, whatever its inputs
  are, in a graph where no other node has an output of the same name: the pass returns,
  and in the graph it leaves, raised or not, the node is still at its index with its
  operator type, inputs and outputs, and the initializer under each of its output names
  is what it was before the pass (so none was added). The same holds for every nested
  run of the pass, whatever its fuel.
\<close>

theorem excluded_node_is_never_folded:
  assumes "GetNode graph i = Some node" and "OpType node \<in> excluded_op_types cf"
    and "\<forall>j other. j \<noteq> i \<longrightarrow> GetNode graph j = Some other \<longrightarrow>
           Name ` set (OutputDefs other) \<inter> Name ` set (OutputDefs node) = {}"
  shows "(\<exists>r. ApplyImpl cf ex graph modified l = Some r)
     \<and> (\<forall>k r. ApplyImpl_fuel k cf ex graph modified l = Some r \<longrightarrow>
          (\<exists>node'. GetNode (outcome_graph r) i = Some node' \<and> OpType node' = OpType node
              \<and> InputDefs node' = InputDefs node \<and> OutputDefs node' = OutputDefs node)
          \<and> (\<forall>out \<in> set (OutputDefs node).
                initializers (outcome_graph r) (Name out) = initializers graph (Name out)))"
proof (intro conjI allI impI)
  show "\<exists>r. ApplyImpl cf ex graph modified l = Some r"
    using ApplyImpl_returns [of cf ex graph modified l] by blast
next
  fix k r
  assume run: "ApplyImpl_fuel k cf ex graph modified l = Some r"
  then obtain k' where k: "k = Suc k'" by (cases k) simp_all
  from run have loop: "ApplyImpl_loop (ApplyImpl_fuel k' cf ex) cf ex
      (GetNodesInTopologicalOrder ex graph) graph modified l = Some r"
    by (simp add: k)
  note keep = ApplyImpl_loop_keeps_excluded [OF loop assms(1) refl refl refl assms(2,3)]
  from keep show "\<exists>node'. GetNode (outcome_graph r) i = Some node' \<and> OpType node' = OpType node
              \<and> InputDefs node' = InputDefs node \<and> OutputDefs node' = OutputDefs node"
    by blast
  from keep show "\<forall>out \<in> set (OutputDefs node).
      initializers (outcome_graph r) (Name out) = initializers graph (Name out)"
    by blast
qed

theorem excluded_node_is_never_folded_witness:
  "GetNode (unary_graph ''RandomUniform'') 0 =
     Some (Node ''RandomUniform'' cpu [arg ''a''] [arg ''y''] []) \<and>
   ''RandomUniform'' \<in> excluded_op_types (ConstantFolding_new {cpu} {}) \<and>
   AllNodeInputsAreConstant (unary_graph ''RandomUniform'') 0
     (Node ''RandomUniform'' cpu [arg ''a''] [arg ''y''] []) \<and>
   ApplyImpl (ConstantFolding_new {cpu} {}) ex_kernels (unary_graph ''RandomUniform'') False 0 =
     Some (Inr (unary_graph ''RandomUniform'', False)) \<and>
   initializers (unary_graph ''RandomUniform'') ''y'' = None"
proof -
  let ?cf = "ConstantFolding_new {cpu} {}"
  let ?g = "unary_graph ''RandomUniform''"
  let ?n = "Node ''RandomUniform'' cpu [arg ''a''] [arg ''y''] []"
  have n: "GetNode ?g 0 = Some ?n" by (simp add: GetNode_def unary_graph_def)
  have x: "OpType ?n \<in> excluded_op_types ?cf" by (simp add: ConstantFolding_new_def)
  have c: "AllNodeInputsAreConstant ?g 0 ?n"
    by (simp add: AllNodeInputsAreConstant_def fixture_defs)
  have ssa: "\<forall>j other. j \<noteq> 0 \<longrightarrow> GetNode ?g j = Some other \<longrightarrow>
      Name ` set (OutputDefs other) \<inter> Name ` set (OutputDefs ?n) = {}"
    by (simp add: GetNode_def fixture_defs less_Suc_eq)
  have run: "ApplyImpl ?cf ex_kernels ?g False 0 = Some (Inr (?g, False))"
    by (simp add: model_defs fixture_defs upt_rec)
  have i: "initializers ?g ''y'' = None" by (simp add: fixture_defs)
  from excluded_node_is_never_folded [OF n x ssa, of ex_kernels False 0]
  have "\<exists>r. ApplyImpl ?cf ex_kernels ?g False 0 = Some r" by blast
  with n x c run i show ?thesis by simp
qed
section \<open>C9: the status of the kernel\<close>



section \<open>C10: \<open>excluded_initializers\<close>\<close>

text \<open>
  C10. Two passes constructed with the same compatible providers and any two
  \<open>excluded_initializers\<close> sets give the same result on every graph: the same graph
  and the same \<open>modified\<close> flag, or the same error.
\<close>

theorem excluded_initializers_has_no_effect:
  "ApplyImpl (ConstantFolding_new compatible_providers excluded_inits1) ex graph modified l =
   ApplyImpl (ConstantFolding_new compatible_providers excluded_inits2) ex graph modified l"
  unfolding ApplyImpl_def
  by (subst ApplyImpl_fuel_cong
      [of "ConstantFolding_new compatible_providers excluded_inits1"
          "ConstantFolding_new compatible_providers excluded_inits2" ex ex])
    (simp_all add: ConstantFolding_new_def)

end
